theory Spec2Isabelle
  imports Main "HOL-Library.Multiset"
begin

section \<open>Values of the state tree\<close>

text \<open>
  The Store holds JSON-like values (\<open>data/content.json\<close> is parsed JSON, two-way bindings write
  strings). Numbers are restricted to integers; strings are lists of code units below 256.
\<close>

datatype jsval =
    Undefined
  | Null
  | JBool bool
  | JNum int
  | JStr string
  | JArr "jsval list"
  | JObj "(string \<times> jsval) list"

type_synonym store = "(string \<times> jsval) list"

text \<open>JavaScript truthiness (\<open>!!v\<close>, and the left operand of \<open>||\<close>).\<close>

fun truthy :: "jsval \<Rightarrow> bool" where
  "truthy Undefined = False"
| "truthy Null = False"
| "truthy (JBool b) = b"
| "truthy (JNum n) = (n \<noteq> 0)"
| "truthy (JStr s) = (s \<noteq> [])"
| "truthy (JArr xs) = True"
| "truthy (JObj kvs) = True"

fun is_list :: "jsval \<Rightarrow> bool" where
  "is_list (JArr xs) = True"
| "is_list v = False"

subsection \<open>String conversion\<close>

definition digit_char :: "nat \<Rightarrow> char" where
  "digit_char n = ''0123456789'' ! (n mod 10)"

fun nat_digits :: "nat \<Rightarrow> string" where
  "nat_digits n =
     (if n < 10 then [digit_char n] else nat_digits (n div 10) @ [digit_char (n mod 10)])"

declare nat_digits.simps [simp del]

definition int_string :: "int \<Rightarrow> string" where
  "int_string i = (if i < 0 then CHR ''-'' # nat_digits (nat (- i)) else nat_digits (nat i))"

fun join_comma :: "string list \<Rightarrow> string" where
  "join_comma [] = []"
| "join_comma [s] = s"
| "join_comma (s # t # ss) = s @ CHR '','' # join_comma (t # ss)"

text \<open>\<open>ToString\<close>, as applied by \<open>String(item)\<close> and to the result of a replace callback.\<close>

fun toString :: "jsval \<Rightarrow> string" where
  "toString Undefined = ''undefined''"
| "toString Null = ''null''"
| "toString (JBool b) = (if b then ''true'' else ''false'')"
| "toString (JNum n) = int_string n"
| "toString (JStr s) = s"
| "toString (JArr xs) =
     join_comma (map (\<lambda>v. if v = Undefined \<or> v = Null then [] else toString v) xs)"
| "toString (JObj kvs) = ''[object Object]''"

section \<open>Regular expressions of the source, compiled by hand\<close>

text \<open>Character classes \<open>\s\<close>, \<open>\w\<close> and the line terminators that \<open>.\<close> refuses.\<close>

definition is_space :: "char \<Rightarrow> bool" where
  "is_space c \<longleftrightarrow> of_char c \<in> {9, 10, 11, 12, 13, 32, 160 :: nat}"

definition is_line_terminator :: "char \<Rightarrow> bool" where
  "is_line_terminator c \<longleftrightarrow> of_char c \<in> {10, 13 :: nat}"

definition is_word :: "char \<Rightarrow> bool" where
  "is_word c \<longleftrightarrow>
     (let n = of_char c :: nat
      in (48 \<le> n \<and> n \<le> 57) \<or> (65 \<le> n \<and> n \<le> 90) \<or> n = 95 \<or> (97 \<le> n \<and> n \<le> 122))"

definition strip_prefix :: "string \<Rightarrow> string \<Rightarrow> string option" where
  "strip_prefix p s = (if take (length p) s = p then Some (drop (length p) s) else None)"

fun str_includes :: "string \<Rightarrow> string \<Rightarrow> bool" where
  "str_includes [] p = (p = [])"
| "str_includes (c # cs) p = (take (length p) (c # cs) = p \<or> str_includes cs p)"

subsection \<open>Global replace\<close>

text \<open>
  \<open>String.prototype.replace\<close> with a global regular expression scans the subject from left to
  right; after a match the scan resumes behind it. A matcher is given the text already passed
  (for \<open>\b\<close>) and the text ahead, and answers with capture group 1 and the length of the match.
\<close>

record hit =
  matched :: string
  group1 :: string
  before :: string
  after :: string

datatype piece = Lit char | Hit hit

type_synonym matcher = "string \<Rightarrow> string \<Rightarrow> (string \<times> nat) option"

function scan :: "matcher \<Rightarrow> string \<Rightarrow> string \<Rightarrow> piece list" where
  "scan m pre [] =
     (case m pre [] of
        Some (g, n) \<Rightarrow> [Hit \<lparr>matched = [], group1 = g, before = pre, after = []\<rparr>]
      | None \<Rightarrow> [])"
| "scan m pre (c # cs) =
     (case m pre (c # cs) of
        Some (g, n) \<Rightarrow>
          (if n = 0
           then Hit \<lparr>matched = [], group1 = g, before = pre, after = c # cs\<rparr>
                  # Lit c # scan m (pre @ [c]) cs
           else Hit \<lparr>matched = take n (c # cs), group1 = g, before = pre,
                       after = drop n (c # cs)\<rparr>
                  # scan m (pre @ take n (c # cs)) (drop n (c # cs)))
      | None \<Rightarrow> Lit c # scan m (pre @ [c]) cs)"
  by pat_completeness auto
termination
  by (relation "measure (\<lambda>(m, pre, s). length s)") auto

text \<open>
  Replacement by a callback that receives capture group 1; the callback may write to the
  console, and what it writes is collected in the order of the matches.
\<close>

fun replace_fn :: "(string \<Rightarrow> string \<times> 'l list) \<Rightarrow> piece list \<Rightarrow> string \<times> 'l list" where
  "replace_fn f [] = ([], [])"
| "replace_fn f (Lit c # ps) = (let (out, lg) = replace_fn f ps in (c # out, lg))"
| "replace_fn f (Hit h # ps) =
     (let (r, lg1) = f (group1 h); (out, lg2) = replace_fn f ps in (r @ out, lg1 @ lg2))"

text \<open>
  Replacement by a string: \<open>$$\<close>, \<open>$&\<close>, \<open>$`\<close> and \<open>$'\<close> are expanded (the expressions
  replaced this way have no capture group, so \<open>$1\<close> and the like stay as they are).
\<close>

fun get_substitution :: "hit \<Rightarrow> string \<Rightarrow> string" where
  "get_substitution h [] = []"
| "get_substitution h [c] = [c]"
| "get_substitution h (c # d # r) =
     (if c = CHR ''$'' \<and> d = CHR ''$'' then CHR ''$'' # get_substitution h r
      else if c = CHR ''$'' \<and> d = CHR ''&'' then matched h @ get_substitution h r
      else if c = CHR ''$'' \<and> d = CHR 0x60 then before h @ get_substitution h r
      else if c = CHR ''$'' \<and> d = CHR 0x27 then after h @ get_substitution h r
      else c # get_substitution h (d # r))"

fun replace_str :: "string \<Rightarrow> piece list \<Rightarrow> string" where
  "replace_str repl [] = []"
| "replace_str repl (Lit c # ps) = c # replace_str repl ps"
| "replace_str repl (Hit h # ps) = get_substitution h repl @ replace_str repl ps"

subsection \<open>The placeholder expression \<open>/\{\{\s*(.+?)\s*\}\}/g\<close>\<close>

text \<open>\<open>\s*\}\}\<close>: the white space is taken whole, since the brace that follows is none.\<close>

definition close_braces :: "string \<Rightarrow> string option" where
  "close_braces s = strip_prefix ''}}'' (dropWhile is_space s)"

text \<open>\<open>(.+?)\s*\}\}\<close>: the shortest non-empty run without line terminator that a close follows.\<close>

fun lazy_body :: "string \<Rightarrow> string \<Rightarrow> (string \<times> string) option" where
  "lazy_body acc [] = None"
| "lazy_body acc (c # cs) =
     (if is_line_terminator c then None
      else (case close_braces cs of
              Some r \<Rightarrow> Some (acc @ [c], r)
            | None \<Rightarrow> lazy_body (acc @ [c]) cs))"

text \<open>The greedy \<open>\s*\<close> in front gives white space back, one character at a time, on failure.\<close>

fun ws_backtrack :: "nat \<Rightarrow> string \<Rightarrow> (string \<times> string) option" where
  "ws_backtrack 0 s = lazy_body [] s"
| "ws_backtrack (Suc k) s =
     (case lazy_body [] (drop (Suc k) s) of
        Some r \<Rightarrow> Some r
      | None \<Rightarrow> ws_backtrack k s)"

definition match_mustache :: matcher where
  "match_mustache pre s =
     (case strip_prefix ''{{'' s of
        None \<Rightarrow> None
      | Some r \<Rightarrow>
          (case ws_backtrack (length (takeWhile is_space r)) r of
             None \<Rightarrow> None
           | Some (expr, rest) \<Rightarrow> Some (expr, length s - length rest)))"

subsection \<open>The expressions built from the loop variable in \<open>processFor\<close>\<close>

text \<open>\<open>\{\{\s*ITEM(.+?)\s*\}\}\<close>\<close>

definition match_item_access :: "string \<Rightarrow> matcher" where
  "match_item_access itemName pre s =
     (case strip_prefix ''{{'' s of
        None \<Rightarrow> None
      | Some r \<Rightarrow>
          (case strip_prefix itemName (dropWhile is_space r) of
             None \<Rightarrow> None
           | Some r1 \<Rightarrow>
               (case lazy_body [] r1 of
                  None \<Rightarrow> None
                | Some (rest, r2) \<Rightarrow> Some (rest, length s - length r2))))"

text \<open>\<open>\{\{\s*ITEM\s*\}\}\<close>\<close>

definition match_item_bare :: "string \<Rightarrow> matcher" where
  "match_item_bare itemName pre s =
     (case strip_prefix ''{{'' s of
        None \<Rightarrow> None
      | Some r \<Rightarrow>
          (case strip_prefix itemName (dropWhile is_space r) of
             None \<Rightarrow> None
           | Some r1 \<Rightarrow>
               (case close_braces r1 of
                  None \<Rightarrow> None
                | Some r2 \<Rightarrow> Some ([], length s - length r2))))"

text \<open>\<open>ITEM(.+?)\<close>: with nothing behind it the lazy group is one character.\<close>

definition match_item_attr :: "string \<Rightarrow> matcher" where
  "match_item_attr itemName pre s =
     (case strip_prefix itemName s of
        None \<Rightarrow> None
      | Some [] \<Rightarrow> None
      | Some (c # r) \<Rightarrow>
          (if is_line_terminator c then None else Some ([c], length itemName + 1)))"

text \<open>\<open>\bITEM\b\<close>; the name consists of word characters.\<close>

definition match_item_word :: "string \<Rightarrow> matcher" where
  "match_item_word itemName pre s =
     (case strip_prefix itemName s of
        None \<Rightarrow> None
      | Some r \<Rightarrow>
          (if (pre = [] \<or> \<not> is_word (last pre)) \<and> (r = [] \<or> \<not> is_word (hd r))
           then Some ([], length itemName) else None))"

subsection \<open>The grammar of the repeat directive \<open>/^\s*(\w+)\s+in\s+(.+)\s*$/\<close>\<close>

text \<open>\<open>(.+)\s*$\<close>: the greedy group runs to the first line terminator; only white space may follow.\<close>

definition list_tail :: "string \<Rightarrow> string option" where
  "list_tail s =
     (let body = takeWhile (\<lambda>c. \<not> is_line_terminator c) s
      in if body \<noteq> [] \<and> list_all is_space (drop (length body) s) then Some body else None)"

text \<open>\<open>\s+\<close> before the list expression keeps at least one character and gives the others back.\<close>

fun in_backtrack :: "nat \<Rightarrow> string \<Rightarrow> string option" where
  "in_backtrack 0 s = None"
| "in_backtrack (Suc k) s =
     (case list_tail (drop (Suc k) s) of
        Some b \<Rightarrow> Some b
      | None \<Rightarrow> in_backtrack k s)"

definition match_for :: "string \<Rightarrow> (string \<times> string) option" where
  "match_for s =
     (let s1 = dropWhile is_space s;
          name = takeWhile is_word s1;
          s2 = drop (length name) s1;
          ws1 = takeWhile is_space s2;
          s3 = drop (length ws1) s2
      in if name = [] \<or> ws1 = [] then None
         else (case strip_prefix ''in'' s3 of
                 None \<Rightarrow> None
               | Some s4 \<Rightarrow>
                   (case in_backtrack (length (takeWhile is_space s4)) s4 of
                      None \<Rightarrow> None
                    | Some listExpr \<Rightarrow> Some (name, listExpr))))"

section \<open>The document\<close>

text \<open>
  A DOM node is a tree with an identity. The nodes that the code holds on to (the root captured
  by a render callback, the static results of \<open>querySelectorAll\<close>) are named by identity.
  \<open>inputValue\<close> is the \<open>value\<close> property of a form control, \<open>listeners\<close> the closures
  registered with \<open>addEventListener\<close>, each with the directive value it captured.
\<close>

type_synonym nid = nat

datatype listener = InputListener string | ClickListener string

datatype node =
    TextNode (nodeId: nid) (nodeValue: string)
  | OtherNode (nodeId: nid)
  | Element (nodeId: nid) (tagName: string) (attributes: "(string \<times> string) list")
      (inputValue: string) (listeners: "listener list") (childNodes: "node list")
where
  "nodeValue (OtherNode i) = []"
| "nodeValue (Element i t as v ls cs) = []"
| "tagName (TextNode i s) = []"
| "tagName (OtherNode i) = []"
| "attributes (TextNode i s) = []"
| "attributes (OtherNode i) = []"
| "inputValue (TextNode i s) = []"
| "inputValue (OtherNode i) = []"
| "listeners (TextNode i s) = []"
| "listeners (OtherNode i) = []"
| "childNodes (TextNode i s) = []"
| "childNodes (OtherNode i) = []"

fun is_element :: "node \<Rightarrow> bool" where
  "is_element (Element i t as v ls cs) = True"
| "is_element n = False"

text \<open>All nodes of a subtree in document order, the root first.\<close>

fun nodes_of :: "node \<Rightarrow> node list" where
  "nodes_of (Element i t as v ls cs) = Element i t as v ls cs # concat (map nodes_of cs)"
| "nodes_of n = [n]"

definition descendants :: "node \<Rightarrow> node list" where
  "descendants n = concat (map nodes_of (childNodes n))"

text \<open>
  The nodes that exist: the document (the tree of the container) and every subtree detached
  from it, which the code can still reach through a reference it kept.
\<close>

definition forest_nodes :: "node list \<Rightarrow> node list" where
  "forest_nodes F = concat (map nodes_of F)"

definition find_node :: "nid \<Rightarrow> node list \<Rightarrow> node option" where
  "find_node i F = find (\<lambda>n. nodeId n = i) (forest_nodes F)"

definition parent_of :: "nid \<Rightarrow> node list \<Rightarrow> nid option" where
  "parent_of i F =
     map_option nodeId (find (\<lambda>n. i \<in> set (map nodeId (childNodes n))) (forest_nodes F))"

definition getAttribute :: "node \<Rightarrow> string \<Rightarrow> string option" where
  "getAttribute n name = map_of (attributes n) name"

definition hasAttribute :: "string \<Rightarrow> node \<Rightarrow> bool" where
  "hasAttribute name n \<longleftrightarrow> name \<in> set (map fst (attributes n))"

fun removeAttribute :: "string \<Rightarrow> node \<Rightarrow> node" where
  "removeAttribute name (Element i t as v ls cs) =
     Element i t (filter (\<lambda>(k, x). k \<noteq> name) as) v ls cs"
| "removeAttribute name n = n"

fun set_inputValue :: "string \<Rightarrow> node \<Rightarrow> node" where
  "set_inputValue x (Element i t as v ls cs) = Element i t as x ls cs"
| "set_inputValue x n = n"

fun addEventListener :: "listener \<Rightarrow> node \<Rightarrow> node" where
  "addEventListener l (Element i t as v ls cs) = Element i t as v (ls @ [l]) cs"
| "addEventListener l n = n"

fun appendChild :: "node \<Rightarrow> node \<Rightarrow> node" where
  "appendChild c (Element i t as v ls cs) = Element i t as v ls (cs @ [c])"
| "appendChild c n = n"

text \<open>The node with identity \<open>i\<close> is replaced by its image under \<open>f\<close>.\<close>

fun map_node :: "nid \<Rightarrow> (node \<Rightarrow> node) \<Rightarrow> node \<Rightarrow> node" where
  "map_node i f (Element j t as v ls cs) =
     (let n = Element j t as v ls (map (map_node i f) cs) in if j = i then f n else n)"
| "map_node i f n = (if nodeId n = i then f n else n)"

definition update_node :: "nid \<Rightarrow> (node \<Rightarrow> node) \<Rightarrow> node list \<Rightarrow> node list" where
  "update_node i f F = map (map_node i f) F"

text \<open>
  \<open>node.remove()\<close>: a node without parent stays where it is; otherwise it leaves the child list
  of its parent and lives on as a detached tree.
\<close>

fun prune :: "nid \<Rightarrow> node \<Rightarrow> node" where
  "prune i (Element j t as v ls cs) =
     Element j t as v ls (map (prune i) (filter (\<lambda>c. nodeId c \<noteq> i) cs))"
| "prune i n = n"

definition remove :: "nid \<Rightarrow> node list \<Rightarrow> node list" where
  "remove i F =
     (case parent_of i F of
        None \<Rightarrow> F
      | Some p \<Rightarrow>
          (case find_node i F of
             None \<Rightarrow> F
           | Some n \<Rightarrow> map (prune i) F @ [n]))"

text \<open>\<open>root.querySelectorAll('[name]')\<close>: the descendant elements, never the root itself.\<close>

definition querySelectorAll :: "string \<Rightarrow> nid \<Rightarrow> node list \<Rightarrow> nid list" where
  "querySelectorAll name root F =
     (case find_node root F of
        None \<Rightarrow> []
      | Some r \<Rightarrow>
          map nodeId (filter (\<lambda>n. is_element n \<and> hasAttribute name n) (descendants r)))"

text \<open>
  \<open>cloneNode(true)\<close> copies the subtree with its attributes; the copy is a new object (new
  identities, numbered in document order) and carries no listener.
\<close>

fun cloneNode :: "nid \<Rightarrow> node \<Rightarrow> node \<times> nid"
  and cloneNodes :: "nid \<Rightarrow> node list \<Rightarrow> node list \<times> nid" where
  "cloneNode k (TextNode i s) = (TextNode k s, Suc k)"
| "cloneNode k (OtherNode i) = (OtherNode k, Suc k)"
| "cloneNode k (Element i t as v ls cs) =
     (let (cs', k') = cloneNodes (Suc k) cs in (Element k t as v [] cs', k'))"
| "cloneNodes k [] = ([], k)"
| "cloneNodes k (c # cs) =
     (let (c', k1) = cloneNode k c; (cs', k2) = cloneNodes k1 cs in (c' # cs', k2))"

section \<open>The expression engine\<close>

text \<open>
  \<open>new Function(...)\<close> hands an expression string to the JavaScript engine of the browser. The
  engine is a parameter of the model: for each of the four function bodies the source builds,
  it says what calling the compiled function does, given the current state object.
  \<^item> \<open>run_expr expr st\<close>: \<open>with(state){ with(data){ return (expr); } }\<close>, the value returned or
    the exception thrown (by the compiler or by the call). Reading is taken to have no effect
    on the state.
  \<^item> \<open>run_item name rest item st\<close>: \<open>with(state){ with(data){ return name rest; } }\<close> with the
    parameter \<open>name\<close> bound to \<open>item\<close>.
  \<^item> \<open>run_assign model val st\<close>: \<open>with(state){ with(data){ model = val; } }\<close>.
  \<^item> \<open>run_stmt expr st\<close>: \<open>with(state){ with(data){ expr } }\<close>.
  The last two answer with the writes performed, in order, and the exception that ended the
  call, if any. A write to a top-level field of the state goes through the proxy
  (\<open>ProxySet\<close>); any other write changes the state tree behind the proxy's back (\<open>Mutate\<close>,
  with the state tree after it).
\<close>

datatype exc =
    SyntaxError
  | ReferenceError string
  | TypeError string
  | Thrown jsval

datatype effect = ProxySet string jsval | Mutate store

record engine =
  run_expr :: "string \<Rightarrow> store \<Rightarrow> exc + jsval"
  run_item :: "string \<Rightarrow> string \<Rightarrow> jsval \<Rightarrow> store \<Rightarrow> exc + jsval"
  run_assign :: "string \<Rightarrow> jsval \<Rightarrow> store \<Rightarrow> effect list \<times> exc option"
  run_stmt :: "string \<Rightarrow> store \<Rightarrow> effect list \<times> exc option"

datatype logentry =
    Warn string exc
  | ErrorLog exc
  | Uncaught exc

section \<open>The program\<close>

subsection \<open>\<open>evalInContext\<close>\<close>

definition evalInContext :: "engine \<Rightarrow> store \<Rightarrow> string \<Rightarrow> jsval \<times> logentry list" where
  "evalInContext eng st expr =
     (case run_expr eng expr st of
        Inl e \<Rightarrow> (Undefined, [Warn expr e])
      | Inr v \<Rightarrow> (v, []))"

subsection \<open>\<open>interpolate\<close>\<close>

text \<open>The replace callback \<open>val === undefined ? '' : val\<close>, whose result is turned into a string.\<close>

definition splice :: "engine \<Rightarrow> store \<Rightarrow> string \<Rightarrow> string \<times> logentry list" where
  "splice eng st expr =
     (let (val, lg) = evalInContext eng st expr
      in (if val = Undefined then [] else toString val, lg))"

definition interpolate_string :: "engine \<Rightarrow> store \<Rightarrow> string \<Rightarrow> string \<times> logentry list" where
  "interpolate_string eng st text = replace_fn (splice eng st) (scan match_mustache [] text)"

fun interpolate_attrs ::
  "engine \<Rightarrow> store \<Rightarrow> (string \<times> string) list \<Rightarrow> (string \<times> string) list \<times> logentry list" where
  "interpolate_attrs eng st [] = ([], [])"
| "interpolate_attrs eng st ((k, x) # as) =
     (let (x', lg1) = (if x \<noteq> [] \<and> str_includes x ''{{''
                        then interpolate_string eng st x else (x, []));
          (as', lg2) = interpolate_attrs eng st as
      in ((k, x') # as', lg1 @ lg2))"

fun interpolate :: "engine \<Rightarrow> store \<Rightarrow> node \<Rightarrow> node \<times> logentry list" where
  "interpolate eng st (TextNode i text) =
     (if str_includes text ''{{''
      then (let (text', lg) = interpolate_string eng st text in (TextNode i text', lg))
      else (TextNode i text, []))"
| "interpolate eng st (OtherNode i) = (OtherNode i, [])"
| "interpolate eng st (Element i t as v ls cs) =
     (let (as', lg1) = interpolate_attrs eng st as;
          rs = map (interpolate eng st) cs
      in (Element i t as' v ls (map fst rs), lg1 @ concat (map snd rs)))"

subsection \<open>The running page\<close>

text \<open>
  \<open>state\<close> is the object behind the proxy, \<open>handlers\<close> the subscriber list: each subscriber is
  the \<open>render\<close> closure of one call of \<open>processDirectives\<close> and is named by the root it
  captured. \<open>nextId\<close> is the identity the next created node receives. \<open>invocations\<close> records
  every call of a subscriber, in order; the program does not read it.
\<close>

record world =
  state :: store
  handlers :: "nid list"
  forest :: "node list"
  nextId :: nid
  console :: "logentry list"
  invocations :: "nid list"

definition write_console :: "logentry list \<Rightarrow> world \<Rightarrow> world" where
  "write_console lg w = w\<lparr>console := console w @ lg\<rparr>"

definition interpolate_root :: "engine \<Rightarrow> nid \<Rightarrow> world \<Rightarrow> world" where
  "interpolate_root eng root w =
     (case find_node root (forest w) of
        None \<Rightarrow> w
      | Some r \<Rightarrow>
          write_console (snd (interpolate eng (state w) r))
            (w\<lparr>forest := update_node root (\<lambda>n. fst (interpolate eng (state w) n)) (forest w)\<rparr>))"

subsection \<open>\<open>processIf\<close>\<close>

definition processIf :: "engine \<Rightarrow> nid \<Rightarrow> world \<Rightarrow> world" where
  "processIf eng i w =
     (case find_node i (forest w) of
        None \<Rightarrow> w
      | Some node \<Rightarrow>
          (case getAttribute node ''o-if'' of
             None \<Rightarrow> w
           | Some ifExpr \<Rightarrow>
               if ifExpr = [] then w
               else (let (v, lg) = evalInContext eng (state w) ifExpr;
                         w1 = write_console lg w
                     in if \<not> truthy v
                        then w1\<lparr>forest := remove i (forest w1)\<rparr>
                        else w1\<lparr>forest := update_node i (removeAttribute ''o-if'') (forest w1)\<rparr>)))"

subsection \<open>\<open>bindModel\<close> and \<open>bindClick\<close>\<close>

definition input_capable :: "node \<Rightarrow> bool" where
  "input_capable n \<longleftrightarrow> tagName n \<in> {''INPUT'', ''TEXTAREA'', ''SELECT''}"

definition bindModel :: "engine \<Rightarrow> nid \<Rightarrow> world \<Rightarrow> world" where
  "bindModel eng i w =
     (case find_node i (forest w) of
        None \<Rightarrow> w
      | Some node \<Rightarrow>
          (case getAttribute node ''o-model'' of
             None \<Rightarrow> w
           | Some model \<Rightarrow>
               if model = [] then w
               else (let (cur, lg) = evalInContext eng (state w) model;
                         w1 = write_console lg w;
                         bind = (\<lambda>n. if input_capable n
                                      then addEventListener (InputListener model)
                                             (set_inputValue
                                                (if cur = Null \<or> cur = Undefined then []
                                                 else toString cur) n)
                                      else n)
                     in w1\<lparr>forest :=
                            update_node i (\<lambda>n. removeAttribute ''o-model'' (bind n)) (forest w1)\<rparr>)))"

definition bindClick :: "nid \<Rightarrow> world \<Rightarrow> world" where
  "bindClick i w =
     (case find_node i (forest w) of
        None \<Rightarrow> w
      | Some node \<Rightarrow>
          (case getAttribute node ''o-click'' of
             None \<Rightarrow> w
           | Some clickExpr \<Rightarrow>
               if clickExpr = [] then w
               else w\<lparr>forest :=
                        update_node i
                          (\<lambda>n. removeAttribute ''o-click'' (addEventListener (ClickListener clickExpr) n))
                          (forest w)\<rparr>))"

subsection \<open>\<open>render\<close>, \<open>notify\<close> and the proxy\<close>

text \<open>The conditional re-check inside \<open>render\<close>.\<close>

definition recheck_if :: "engine \<Rightarrow> nid \<Rightarrow> world \<Rightarrow> world" where
  "recheck_if eng i w =
     (case find_node i (forest w) of
        None \<Rightarrow> w
      | Some node \<Rightarrow>
          (let expr = (case getAttribute node ''o-if'' of None \<Rightarrow> ''null'' | Some e \<Rightarrow> e);
               (v, lg) = evalInContext eng (state w) expr;
               w1 = write_console lg w
           in if \<not> truthy v \<and> parent_of i (forest w1) \<noteq> None
              then w1\<lparr>forest := remove i (forest w1)\<rparr>
              else if truthy v
                   then w1\<lparr>forest := update_node i (removeAttribute ''o-if'') (forest w1)\<rparr>
                   else w1))"

definition render :: "engine \<Rightarrow> nid \<Rightarrow> world \<Rightarrow> world" where
  "render eng root w =
     (let w0 = w\<lparr>invocations := invocations w @ [root]\<rparr>;
          w1 = interpolate_root eng root w0;
          w2 = fold (bindModel eng) (querySelectorAll ''o-model'' root (forest w1)) w1
      in fold (recheck_if eng) (querySelectorAll ''o-if'' root (forest w2)) w2)"

definition notify :: "engine \<Rightarrow> world \<Rightarrow> world" where
  "notify eng w = fold (render eng) (handlers w) w"

text \<open>The \<open>set\<close> trap of the proxy; a field that is not there yet is added at the end.\<close>

fun set_field :: "string \<Rightarrow> jsval \<Rightarrow> store \<Rightarrow> store" where
  "set_field prop v [] = [(prop, v)]"
| "set_field prop v ((k, x) # kvs) =
     (if k = prop then (k, v) # kvs else (k, x) # set_field prop v kvs)"

definition proxy_set :: "engine \<Rightarrow> string \<Rightarrow> jsval \<Rightarrow> world \<Rightarrow> world" where
  "proxy_set eng prop v w = notify eng (w\<lparr>state := set_field prop v (state w)\<rparr>)"

subsection \<open>\<open>processFor\<close> and \<open>processDirectives\<close>\<close>

text \<open>
  The callback of both replacements by the loop variable: evaluate \<open>name rest\<close> with the item
  bound; a failure gives the empty string and is not logged.
\<close>

definition item_value :: "engine \<Rightarrow> store \<Rightarrow> string \<Rightarrow> jsval \<Rightarrow> string \<Rightarrow> string \<times> unit list" where
  "item_value eng st itemName item rest =
     (case run_item eng itemName rest item st of
        Inl e \<Rightarrow> ([], [])
      | Inr v \<Rightarrow> (if v = Undefined then [] else toString v, []))"

definition expand_text :: "engine \<Rightarrow> store \<Rightarrow> string \<Rightarrow> jsval \<Rightarrow> string \<Rightarrow> string" where
  "expand_text eng st itemName item text =
     replace_str (toString item)
       (scan (match_item_bare itemName) []
          (fst (replace_fn (item_value eng st itemName item)
                  (scan (match_item_access itemName) [] text))))"

definition expand_attr :: "engine \<Rightarrow> store \<Rightarrow> string \<Rightarrow> jsval \<Rightarrow> string \<Rightarrow> string" where
  "expand_attr eng st itemName item x =
     (if x \<noteq> [] \<and> str_includes x itemName
      then replace_str (toString item)
             (scan (match_item_word itemName) []
                (fst (replace_fn (item_value eng st itemName item)
                        (scan (match_item_attr itemName) [] x))))
      else x)"

text \<open>What is done to one node the tree walker delivers, applied to the subtree below it too.\<close>

fun expand_node :: "engine \<Rightarrow> store \<Rightarrow> string \<Rightarrow> jsval \<Rightarrow> node \<Rightarrow> node" where
  "expand_node eng st itemName item (TextNode i text) =
     TextNode i (expand_text eng st itemName item text)"
| "expand_node eng st itemName item (OtherNode i) = OtherNode i"
| "expand_node eng st itemName item (Element i t as v ls cs) =
     Element i t (map (\<lambda>(k, x). (k, expand_attr eng st itemName item x)) as) v ls
       (map (expand_node eng st itemName item) cs)"

text \<open>The walker starts behind the clone: the clone's own attributes are not visited.\<close>

fun expand_clone :: "engine \<Rightarrow> store \<Rightarrow> string \<Rightarrow> jsval \<Rightarrow> node \<Rightarrow> node" where
  "expand_clone eng st itemName item (Element i t as v ls cs) =
     Element i t as v ls (map (expand_node eng st itemName item) cs)"
| "expand_clone eng st itemName item n = n"

text \<open>
  A call either returns, or throws (the exception leaves behind what was done before it), or
  the model runs out of fuel: \<open>processFor\<close> calls \<open>processDirectives\<close> on every clone, and each
  such nested call costs one unit.
\<close>

datatype outcome = Returned world | Threw exc world | OutOfFuel

text \<open>
  \<open>processFor\<close> up to its loop: the directive is read and matched against the grammar, the
  list expression evaluated, the parent and the template taken, the node removed. What
  follows is \<open>list.forEach\<close>, which only a list has.
\<close>

datatype expansion =
    NoExpansion
  | NotIterable exc world
  | Expansion string node "nid option" "jsval list" world

definition processFor_head :: "engine \<Rightarrow> nid \<Rightarrow> world \<Rightarrow> expansion" where
  "processFor_head eng i w =
     (case find_node i (forest w) of
        None \<Rightarrow> NoExpansion
      | Some node \<Rightarrow>
          (case getAttribute node ''o-for'' of
             None \<Rightarrow> NoExpansion
           | Some forExpr \<Rightarrow>
               if forExpr = [] then NoExpansion
               else (case match_for forExpr of
                       None \<Rightarrow> NoExpansion
                     | Some (itemName, listExpr) \<Rightarrow>
                         (let (v, lg) = evalInContext eng (state w) listExpr;
                              list = (if truthy v then v else JArr []);
                              parent = parent_of i (forest w);
                              template = node;
                              w1 = write_console lg w;
                              w2 = w1\<lparr>forest := remove i (forest w1)\<rparr>
                          in case list of
                               JArr items \<Rightarrow> Expansion itemName template parent items w2
                             | _ \<Rightarrow> NotIterable (TypeError ''list.forEach is not a function'') w2))))"

text \<open>The passes of \<open>processDirectives\<close> behind the repeat pass, and the registration.\<close>

definition if_pass :: "engine \<Rightarrow> nid \<Rightarrow> world \<Rightarrow> world" where
  "if_pass eng root w = fold (processIf eng) (querySelectorAll ''o-if'' root (forest w)) w"

definition model_pass :: "engine \<Rightarrow> nid \<Rightarrow> world \<Rightarrow> world" where
  "model_pass eng root w = fold (bindModel eng) (querySelectorAll ''o-model'' root (forest w)) w"

definition click_pass :: "nid \<Rightarrow> world \<Rightarrow> world" where
  "click_pass root w = fold bindClick (querySelectorAll ''o-click'' root (forest w)) w"

definition subscribe :: "nid \<Rightarrow> world \<Rightarrow> world" where
  "subscribe root w = w\<lparr>handlers := handlers w @ [root]\<rparr>"

function (sequential) processDirectives :: "nat \<Rightarrow> engine \<Rightarrow> nid \<Rightarrow> world \<Rightarrow> outcome"
  and for_pass :: "nat \<Rightarrow> engine \<Rightarrow> nid list \<Rightarrow> world \<Rightarrow> outcome"
  and processFor :: "nat \<Rightarrow> engine \<Rightarrow> nid \<Rightarrow> world \<Rightarrow> outcome"
  and for_items ::
    "nat \<Rightarrow> engine \<Rightarrow> string \<Rightarrow> node \<Rightarrow> nid option \<Rightarrow> jsval list \<Rightarrow> world \<Rightarrow> outcome" where
  "processDirectives 0 eng root w = OutOfFuel"
| "processDirectives (Suc k) eng root w =
     (case for_pass k eng (querySelectorAll ''o-for'' root (forest w)) w of
        Returned w1 \<Rightarrow>
          Returned
            (subscribe root
               (interpolate_root eng root
                  (click_pass root (model_pass eng root (if_pass eng root w1)))))
      | Threw e w1 \<Rightarrow> Threw e w1
      | OutOfFuel \<Rightarrow> OutOfFuel)"
| "for_pass k eng [] w = Returned w"
| "for_pass k eng (i # is) w =
     (case processFor k eng i w of
        Returned w1 \<Rightarrow> for_pass k eng is w1
      | Threw e w1 \<Rightarrow> Threw e w1
      | OutOfFuel \<Rightarrow> OutOfFuel)"
| "processFor k eng i w =
     (case processFor_head eng i w of
        NoExpansion \<Rightarrow> Returned w
      | NotIterable e w2 \<Rightarrow> Threw e w2
      | Expansion itemName template parent items w2 \<Rightarrow>
          for_items k eng itemName template parent items w2)"
| "for_items k eng itemName template parent [] w = Returned w"
| "for_items k eng itemName template parent (item # items) w =
     (let (c, k') = cloneNode (nextId w) template;
          clone = expand_clone eng (state w) itemName item c;
          w1 = w\<lparr>nextId := k'\<rparr>
      in case parent of
           None \<Rightarrow> Threw (TypeError ''parent is null'') w1
         | Some p \<Rightarrow>
             (case processDirectives k eng (nodeId clone)
                     (w1\<lparr>forest := update_node p (appendChild clone) (forest w1)\<rparr>) of
                Returned w2 \<Rightarrow> for_items k eng itemName template parent items w2
              | Threw e w2 \<Rightarrow> Threw e w2
              | OutOfFuel \<Rightarrow> OutOfFuel))"
  by pat_completeness auto
termination
  by (relation "inv_image (less_than <*lex*> less_than <*lex*> less_than)
        (\<lambda>x. case x of
           Inl (Inl (k, eng, root, w)) \<Rightarrow> (k, 0::nat, 0::nat)
         | Inl (Inr (k, eng, is, w)) \<Rightarrow> (k, 3, length is)
         | Inr (Inl (k, eng, i, w)) \<Rightarrow> (k, 2, 0)
         | Inr (Inr (k, eng, nm, tmpl, parent, items, w)) \<Rightarrow> (k, 1, length items))") auto

subsection \<open>The listeners\<close>

fun apply_effects :: "engine \<Rightarrow> effect list \<Rightarrow> world \<Rightarrow> world" where
  "apply_effects eng [] w = w"
| "apply_effects eng (ProxySet prop v # es) w = apply_effects eng es (proxy_set eng prop v w)"
| "apply_effects eng (Mutate st # es) w = apply_effects eng es (w\<lparr>state := st\<rparr>)"

text \<open>
  The \<open>input\<close> listener of \<open>bindModel\<close>, on the node it captured. It has no \<open>try\<close>: an exception
  leaves the listener before \<open>notify()\<close> and is reported by the browser.
\<close>

definition input_listener :: "engine \<Rightarrow> string \<Rightarrow> nid \<Rightarrow> world \<Rightarrow> world" where
  "input_listener eng model i w =
     (case find_node i (forest w) of
        None \<Rightarrow> w
      | Some node \<Rightarrow>
          (let (es, ex) = run_assign eng model (JStr (inputValue node)) (state w);
               w1 = apply_effects eng es w
           in case ex of
                None \<Rightarrow> notify eng w1
              | Some e \<Rightarrow> write_console [Uncaught e] w1))"

text \<open>The \<open>click\<close> listener of \<open>bindClick\<close>.\<close>

definition click_listener :: "engine \<Rightarrow> string \<Rightarrow> world \<Rightarrow> world" where
  "click_listener eng clickExpr w =
     (let (es, ex) = run_stmt eng clickExpr (state w);
          w1 = apply_effects eng es w
      in case ex of
           None \<Rightarrow> notify eng w1
         | Some e \<Rightarrow> write_console [ErrorLog e] w1)"

fun run_listener :: "engine \<Rightarrow> nid \<Rightarrow> listener \<Rightarrow> world \<Rightarrow> world" where
  "run_listener eng i (InputListener model) w = input_listener eng model i w"
| "run_listener eng i (ClickListener clickExpr) w = click_listener eng clickExpr w"

fun is_click :: "listener \<Rightarrow> bool" where
  "is_click (ClickListener e) = True"
| "is_click l = False"


definition type_into :: "engine \<Rightarrow> nid \<Rightarrow> string \<Rightarrow> world \<Rightarrow> world" where
  "type_into eng i text w =
     (case find_node i (forest w) of
        None \<Rightarrow> w
      | Some node \<Rightarrow>
          fold (run_listener eng i) (filter (\<lambda>l. \<not> is_click l) (listeners node))
            (w\<lparr>forest := update_node i (set_inputValue text) (forest w)\<rparr>))"

section \<open>An engine for dotted paths\<close>

text \<open>
  To run the model on concrete pages, an engine for a fragment of JavaScript: literals
  (\<open>true\<close>, \<open>false\<close>, \<open>null\<close>, decimal numbers, strings in single quotes) and dotted paths
  of identifiers, read or assigned to. On this fragment it follows the scope rule of the
  function bodies: an identifier is looked up in the \<open>data\<close> object, then in the state object,
  then among the parameters; a name found nowhere is a \<open>ReferenceError\<close> when read. The empty
  expression is a \<open>SyntaxError\<close>, and so is, for this engine, every string outside the
  fragment. Identifiers are assumed not to name inherited properties (\<open>toString\<close> and the like).
\<close>

definition trim :: "string \<Rightarrow> string" where
  "trim s = rev (dropWhile is_space (rev (dropWhile is_space s)))"

fun split_on :: "char \<Rightarrow> string \<Rightarrow> string \<Rightarrow> string list" where
  "split_on d acc [] = [acc]"
| "split_on d acc (c # cs) = (if c = d then acc # split_on d [] cs else split_on d (acc @ [c]) cs)"

definition is_digit :: "char \<Rightarrow> bool" where
  "is_digit c \<longleftrightarrow> (let n = of_char c :: nat in 48 \<le> n \<and> n \<le> 57)"

definition is_ident :: "string \<Rightarrow> bool" where
  "is_ident s \<longleftrightarrow> s \<noteq> [] \<and> list_all is_word s \<and> \<not> is_digit (hd s)"

definition digits_value :: "string \<Rightarrow> int" where
  "digits_value s = foldl (\<lambda>a c. 10 * a + (int (of_char c) - 48)) 0 s"

definition parse_literal :: "string \<Rightarrow> jsval option" where
  "parse_literal s =
     (if s = ''true'' then Some (JBool True)
      else if s = ''false'' then Some (JBool False)
      else if s = ''null'' then Some Null
      else if s \<noteq> [] \<and> list_all is_digit s then Some (JNum (digits_value s))
      else if 2 \<le> length s \<and> hd s = CHR 0x27 \<and> last s = CHR 0x27
              \<and> CHR 0x27 \<notin> set (butlast (tl s)) \<and> CHR 0x5C \<notin> set s
              \<and> \<not> list_ex is_line_terminator s
           then Some (JStr (butlast (tl s)))
      else None)"

definition parse_path :: "string \<Rightarrow> string list option" where
  "parse_path s =
     (let parts = map trim (split_on CHR ''.'' [] s)
      in if list_all is_ident parts
              \<and> \<not> list_ex (\<lambda>p. p \<in> {''true'', ''false'', ''null'', ''in'', ''var''}) parts
         then Some parts else None)"

text \<open>The fields of an object value; other values have none the fragment can name.\<close>

fun fields :: "jsval \<Rightarrow> store" where
  "fields (JObj kvs) = kvs"
| "fields v = []"

definition data_of :: "store \<Rightarrow> jsval" where
  "data_of st = (case map_of st ''data'' of None \<Rightarrow> Undefined | Some d \<Rightarrow> d)"

text \<open>
  Where an identifier is found: a place in the state tree (the path to it from the state
  object, \<open>[]\<close> being the state object itself, reached through the proxy), or a parameter
  value, or a name that is not declared (the global \<open>undefined\<close> apart).
\<close>

datatype binding = Place "string list" | Param jsval | Unbound

definition resolve :: "(string \<times> jsval) list \<Rightarrow> store \<Rightarrow> string \<Rightarrow> binding" where
  "resolve params st x =
     (if x \<in> set (map fst (fields (data_of st))) then Place [''data'', x]
      else if x \<in> set (map fst st) then Place [x]
      else (case map_of params x of
              Some v \<Rightarrow> Param v
            | None \<Rightarrow>
                if x = ''state'' then Place []
                else if x = ''data'' then Param (data_of st)
                else Unbound))"

fun get_path :: "string list \<Rightarrow> jsval \<Rightarrow> exc + jsval" where
  "get_path [] v = Inr v"
| "get_path (x # xs) v =
     (case v of
        Undefined \<Rightarrow> Inl (TypeError ''cannot read properties of undefined'')
      | Null \<Rightarrow> Inl (TypeError ''cannot read properties of null'')
      | JObj kvs \<Rightarrow> get_path xs (case map_of kvs x of None \<Rightarrow> Undefined | Some u \<Rightarrow> u)
      | JArr ys \<Rightarrow> get_path xs (if x = ''length'' then JNum (int (length ys)) else Undefined)
      | JStr y \<Rightarrow> get_path xs (if x = ''length'' then JNum (int (length y)) else Undefined)
      | _ \<Rightarrow> get_path xs Undefined)"

fun set_path :: "string list \<Rightarrow> jsval \<Rightarrow> jsval \<Rightarrow> jsval" where
  "set_path [] val v = val"
| "set_path (x # xs) val v =
     JObj (set_field x (set_path xs val (case map_of (fields v) x of None \<Rightarrow> Undefined | Some u \<Rightarrow> u))
            (fields v))"

definition with_guard :: "store \<Rightarrow> exc option" where
  "with_guard st =
     (if data_of st = Undefined \<or> data_of st = Null
      then Some (TypeError ''with: data is not an object'') else None)"

definition read_expr :: "(string \<times> jsval) list \<Rightarrow> string \<Rightarrow> store \<Rightarrow> exc + jsval" where
  "read_expr params expr st =
     (case parse_literal (trim expr) of
        Some v \<Rightarrow> (case with_guard st of Some e \<Rightarrow> Inl e | None \<Rightarrow> Inr v)
      | None \<Rightarrow>
          (case parse_path expr of
             None \<Rightarrow> Inl SyntaxError
           | Some [] \<Rightarrow> Inl SyntaxError
           | Some (x # xs) \<Rightarrow>
               (case with_guard st of
                  Some e \<Rightarrow> Inl e
                | None \<Rightarrow>
                    (case resolve params st x of
                       Place loc \<Rightarrow>
                         (case get_path loc (JObj st) of
                            Inl e \<Rightarrow> Inl e
                          | Inr v \<Rightarrow> get_path xs v)
                     | Param v \<Rightarrow> get_path xs v
                     | Unbound \<Rightarrow>
                         if x = ''undefined'' then get_path xs Undefined
                         else Inl (ReferenceError x)))))"

text \<open>
  \<open>target = val\<close> for a dotted path. A write to a field of the state object itself passes the
  proxy; a write below it does not; a write to a parameter or to an undeclared name leaves the
  state alone.
\<close>

definition write_path ::
  "(string \<times> jsval) list \<Rightarrow> string \<Rightarrow> jsval \<Rightarrow> store \<Rightarrow> effect list \<times> exc option" where
  "write_path params target val st =
     (case parse_path target of
        None \<Rightarrow> ([], Some SyntaxError)
      | Some [] \<Rightarrow> ([], Some SyntaxError)
      | Some (x # xs) \<Rightarrow>
          (case with_guard st of
             Some e \<Rightarrow> ([], Some e)
           | None \<Rightarrow>
               (case resolve params st x of
                  Place loc \<Rightarrow>
                    (let full = loc @ xs
                     in case get_path (butlast full) (JObj st) of
                          Inl e \<Rightarrow> ([], Some e)
                        | Inr (JObj kvs) \<Rightarrow>
                            (if full = [] then ([], None)
                             else if length full = 1 then ([ProxySet (last full) val], None)
                             else ([Mutate (fields (set_path full val (JObj st)))], None))
                        | Inr Undefined \<Rightarrow>
                            ([], Some (TypeError ''cannot set properties of undefined''))
                        | Inr Null \<Rightarrow> ([], Some (TypeError ''cannot set properties of null''))
                        | Inr _ \<Rightarrow> ([], None))
                | Param v \<Rightarrow>
                    (if xs = [] then ([], None)
                     else (case get_path (butlast xs) v of
                             Inl e \<Rightarrow> ([], Some e)
                           | Inr Undefined \<Rightarrow>
                               ([], Some (TypeError ''cannot set properties of undefined''))
                           | Inr Null \<Rightarrow>
                               ([], Some (TypeError ''cannot set properties of null''))
                           | Inr _ \<Rightarrow> ([], None)))
                | Unbound \<Rightarrow>
                    (if xs = [] then ([], None) else ([], Some (ReferenceError x))))))"

text \<open>A statement of the fragment is an assignment \<open>target = expression\<close> or an expression.\<close>

definition exec_stmt :: "string \<Rightarrow> store \<Rightarrow> effect list \<times> exc option" where
  "exec_stmt expr st =
     (case split_on CHR ''='' [] expr of
        [e] \<Rightarrow> (case read_expr [] e st of Inl x \<Rightarrow> ([], Some x) | Inr v \<Rightarrow> ([], None))
      | [target, e] \<Rightarrow>
          (case read_expr [] e st of
             Inl x \<Rightarrow> ([], Some x)
           | Inr v \<Rightarrow> write_path [] target v st)
      | _ \<Rightarrow> ([], Some SyntaxError))"

definition path_engine :: engine where
  "path_engine =
     \<lparr>run_expr = read_expr [],
      run_item = (\<lambda>itemName rest item st. read_expr [(itemName, item)] (itemName @ rest) st),
      run_assign = (\<lambda>model val st. write_path [(''val'', val)] model val st),
      run_stmt = exec_stmt\<rparr>"

section \<open>What a notification round leaves alone\<close>

text \<open>
  The directive handlers and \<open>render\<close> work on the document and the console. They neither
  write the state nor subscribe anything, and only \<open>render\<close> itself is a subscriber call.
\<close>

definition same_store :: "world \<Rightarrow> world \<Rightarrow> bool" where
  "same_store w w' \<longleftrightarrow>
     state w' = state w \<and> handlers w' = handlers w \<and> invocations w' = invocations w
     \<and> nextId w' = nextId w"

lemma same_store_refl [simp]: "same_store w w"
  by (simp add: same_store_def)


lemma same_store_forest [simp]: "same_store w (w\<lparr>forest := F\<rparr>)"
  by (simp add: same_store_def)

lemma same_store_write_console [simp]: "same_store w (write_console lg w)"
  by (simp add: same_store_def write_console_def)













section \<open>The reactive store\<close>


section \<open>Evaluation failures and interpolation\<close>

text \<open>What interpolation makes of a text: every placeholder gives way to its spliced value.\<close>

definition fill :: "engine \<Rightarrow> store \<Rightarrow> string \<Rightarrow> string" where
  "fill eng st text =
     concat (map (\<lambda>p. case p of Lit c \<Rightarrow> [c] | Hit h \<Rightarrow> fst (splice eng st (group1 h)))
               (scan match_mustache [] text))"

lemma fst_replace_fn:
  "fst (replace_fn f ps) = concat (map (\<lambda>p. case p of Lit c \<Rightarrow> [c] | Hit h \<Rightarrow> fst (f (group1 h))) ps)"
proof (induction ps)
  case Nil
  show ?case by simp
next
  case (Cons p ps)
  then show ?case by (cases p) (simp_all add: split_def Let_def)
qed

lemma fst_interpolate_string: "fst (interpolate_string eng st text) = fill eng st text"
  by (simp add: interpolate_string_def fill_def fst_replace_fn)

lemma match_mustache_needs_braces:
  "strip_prefix ''{{'' s = None \<Longrightarrow> match_mustache pre s = None"
  by (simp add: match_mustache_def)

lemma scan_without_braces:
  "\<not> str_includes s ''{{'' \<Longrightarrow> scan match_mustache pre s = map Lit s"
proof (induction s arbitrary: pre)
  case Nil
  show ?case by (simp add: match_mustache_def strip_prefix_def)
next
  case (Cons c cs)
  from Cons.prems have a: "strip_prefix ''{{'' (c # cs) = None" and b: "\<not> str_includes cs ''{{''"
    by (simp_all add: strip_prefix_def)
  show ?case using match_mustache_needs_braces [OF a] Cons.IH [OF b] by simp
qed

lemma fill_without_braces: "\<not> str_includes text ''{{'' \<Longrightarrow> fill eng st text = text"
  by (simp add: fill_def scan_without_braces comp_def)

lemma str_includes_nonempty: "str_includes x ''{{'' \<Longrightarrow> x \<noteq> []"
  by auto

lemma fst_interpolate_attrs:
  "fst (interpolate_attrs eng st as) = map (\<lambda>(k, x). (k, fill eng st x)) as"
proof (induction as)
  case Nil
  show ?case by simp
next
  case (Cons a as)
  obtain k x where a: "a = (k, x)" by (cases a)
  show ?case using Cons.IH
    by (simp add: a split_def fst_interpolate_string fill_without_braces)
qed



text \<open>
  C9. When the engine answers an expression with an exception (of the compiler or of the
  call), \<open>evalInContext\<close> returns \<open>undefined\<close> and writes one warning, naming the expression
  and the exception, to the console; nothing is thrown. Interpolation puts the empty string
  in the place of such a placeholder: a text node or an attribute value that consists of the
  placeholder becomes empty.
\<close>

theorem failing_expression_is_undefined:
  assumes "run_expr eng expr st = Inl e"
  shows "evalInContext eng st expr = (Undefined, [Warn expr e])
     \<and> splice eng st expr = ([], [Warn expr e])
     \<and> (scan match_mustache [] text = [Hit h] \<and> group1 h = expr \<longrightarrow>
          interpolate_string eng st text = ([], [Warn expr e]))"
  using assms
  by (simp add: evalInContext_def splice_def interpolate_string_def)

definition plain_store :: store where
  "plain_store =
     [(''data'', JObj [(''title'', JStr ''Olly''), (''none'', Null), (''off'', JBool False),
                       (''zero'', JNum 0)]),
      (''route'', JStr ''home''), (''theme'', JStr ''light'')]"

theorem failing_expression_is_undefined_witness:
  "run_expr path_engine ''nope'' plain_store = Inl (ReferenceError ''nope'')
   \<and> evalInContext path_engine plain_store ''nope'' = (Undefined, [Warn ''nope'' (ReferenceError ''nope'')])
   \<and> interpolate path_engine plain_store (TextNode 1 ''{{ nope }}'')
       = (TextNode 1 [], [Warn ''nope'' (ReferenceError ''nope'')])"
proof -
  have a: "run_expr path_engine ''nope'' plain_store = Inl (ReferenceError ''nope'')"
    by code_simp
  have b: "scan match_mustache [] ''{{ nope }}''
           = [Hit \<lparr>matched = ''{{ nope }}'', group1 = ''nope'', before = [], after = []\<rparr>]"
    by code_simp
  show ?thesis
    using a failing_expression_is_undefined
            [OF a, of "''{{ nope }}''"
               "\<lparr>matched = ''{{ nope }}'', group1 = ''nope'', before = [], after = []\<rparr>"] b
    by simp
qed



section \<open>The click listener\<close>

lemma apply_single_proxy_set:
  "apply_effects eng [ProxySet p v] w = proxy_set eng p v w"
  by simp


text \<open>A page with a counter button, before and after \<open>processDirectives\<close>.\<close>

definition counter_page :: world where
  "counter_page =
     \<lparr>state = [(''data'', JObj []), (''route'', JStr ''home''), (''theme'', JStr ''light'')],
      handlers = [],
      forest =
        [Element 0 ''DIV'' [(''id'', ''app'')] [] []
           [Element 1 ''BUTTON'' [(''o-click'', ''state.count = 5'')] [] [] [TextNode 2 ''count'']]],
      nextId = 3, console = [], invocations = []\<rparr>"

definition counter_ready :: world where
  "counter_ready =
     \<lparr>state = [(''data'', JObj []), (''route'', JStr ''home''), (''theme'', JStr ''light'')],
      handlers = [0],
      forest =
        [Element 0 ''DIV'' [(''id'', ''app'')] [] []
           [Element 1 ''BUTTON'' [] [] [ClickListener ''state.count = 5''] [TextNode 2 ''count'']]],
      nextId = 3, console = [], invocations = []\<rparr>"

lemma counter_first_pass: "processDirectives 1 path_engine 0 counter_page = Returned counter_ready"
  by code_simp



section \<open>The order of the first pass\<close>

lemma cloneNode_next:
  "cloneNode k n = (c, k') \<Longrightarrow> nodeId c = k \<and> k < k'"
  "cloneNodes k ns = (ms, k') \<Longrightarrow> k \<le> k'"
proof (induction k n and k ns arbitrary: c k' and ms k' rule: cloneNode_cloneNodes.induct)
  case (1 k i s)
  then show ?case by auto
next
  case (2 k i)
  then show ?case by auto
next
  case (3 k i t as v ls cs)
  obtain cs' k1 where a: "cloneNodes (Suc k) cs = (cs', k1)" by (cases "cloneNodes (Suc k) cs")
  from "3.IH" [OF a] have "Suc k \<le> k1" .
  with "3.prems" a show ?case by auto
next
  case (4 k)
  then show ?case by simp
next
  case (5 k d ds)
  obtain c' k1 where a: "cloneNode k d = (c', k1)" by (cases "cloneNode k d")
  obtain cs' k2 where b: "cloneNodes k1 ds = (cs', k2)" by (cases "cloneNodes k1 ds")
  from "5.IH"(1) [OF a] have "k < k1" by simp
  moreover from "5.IH"(2) [OF a [symmetric] refl b] have "k1 \<le> k2" .
  ultimately show ?case using "5.prems" a b by auto
qed

lemma nodeId_expand_clone [simp]: "nodeId (expand_clone eng st nm item n) = nodeId n"
  by (cases n) simp_all

text \<open>
  What the repeat pass does to the subscriber list and to the supply of identities: the
  subscribers it adds are renders of clones, whose roots are new.
\<close>

definition grows :: "world \<Rightarrow> world \<Rightarrow> bool" where
  "grows w w' \<longleftrightarrow>
     nextId w \<le> nextId w'
     \<and> (\<exists>hs. handlers w' = handlers w @ hs \<and> (\<forall>h \<in> set hs. nextId w \<le> h))"

lemma grows_refl [simp]: "grows w w"
  by (simp add: grows_def)










text \<open>A page with a list of two entries, before and after \<open>processDirectives\<close>.\<close>

definition list_page :: world where
  "list_page =
     \<lparr>state = [(''data'', JObj [(''xs'', JArr [JStr ''a'', JStr ''b''])]),
               (''route'', JStr ''home''), (''theme'', JStr ''light'')],
      handlers = [],
      forest =
        [Element 0 ''DIV'' [(''id'', ''app'')] [] []
           [Element 1 ''UL'' [] [] []
              [Element 2 ''LI'' [(''o-for'', ''x in xs'')] [] [] [TextNode 3 ''{{ x }}'']]]],
      nextId = 4, console = [], invocations = []\<rparr>"

definition list_ready :: world where
  "list_ready =
     \<lparr>state = [(''data'', JObj [(''xs'', JArr [JStr ''a'', JStr ''b''])]),
               (''route'', JStr ''home''), (''theme'', JStr ''light'')],
      handlers = [4, 6, 0],
      forest =
        [Element 0 ''DIV'' [(''id'', ''app'')] [] []
           [Element 1 ''UL'' [] [] []
              [Element 4 ''LI'' [(''o-for'', ''x in xs'')] [] [] [TextNode 5 ''a''],
               Element 6 ''LI'' [(''o-for'', ''x in xs'')] [] [] [TextNode 7 ''b'']]],
         Element 2 ''LI'' [(''o-for'', ''x in xs'')] [] [] [TextNode 3 ''{{ x }}'']],
      nextId = 8, console = [], invocations = []\<rparr>"

lemma list_first_pass: "processDirectives (Suc 1) path_engine 0 list_page = Returned list_ready"
  by code_simp


section \<open>What the render callback does not reach\<close>

text \<open>A page with a conditional paragraph whose condition is a top-level field of the state.\<close>

definition cond_page :: world where
  "cond_page =
     \<lparr>state = [(''data'', JObj []), (''route'', JStr ''home''), (''theme'', JStr ''light''),
               (''show'', JBool True)],
      handlers = [],
      forest =
        [Element 0 ''DIV'' [(''id'', ''app'')] [] []
           [Element 1 ''P'' [(''o-if'', ''show'')] [] [] [TextNode 2 ''shown'']]],
      nextId = 3, console = [], invocations = []\<rparr>"

definition cond_ready :: world where
  "cond_ready =
     \<lparr>state = [(''data'', JObj []), (''route'', JStr ''home''), (''theme'', JStr ''light''),
               (''show'', JBool True)],
      handlers = [0],
      forest =
        [Element 0 ''DIV'' [(''id'', ''app'')] [] []
           [Element 1 ''P'' [] [] [] [TextNode 2 ''shown'']]],
      nextId = 3, console = [], invocations = []\<rparr>"

text \<open>
  C1, on the page above. The paragraph's condition \<open>show\<close> is true at first processing, so
  \<open>processIf\<close> keeps the paragraph and strips its \<open>o-if\<close> attribute. The write
  \<open>state.show = false\<close> then makes the condition false and runs one notification round, in
  which \<open>render\<close> looks for elements that carry \<open>o-if\<close>; the paragraph carries it no longer
  and stays in the document, attached to its parent.
\<close>

theorem retained_conditional_is_not_rechecked:
  "processDirectives 1 path_engine 0 cond_page = Returned cond_ready
   \<and> evalInContext path_engine (state cond_page) ''show'' = (JBool True, [])
   \<and> evalInContext path_engine
         (state (proxy_set path_engine ''show'' (JBool False) cond_ready)) ''show''
       = (JBool False, [])
   \<and> invocations (proxy_set path_engine ''show'' (JBool False) cond_ready) = [0]
   \<and> forest (proxy_set path_engine ''show'' (JBool False) cond_ready) = forest cond_ready
   \<and> parent_of 1 (forest (proxy_set path_engine ''show'' (JBool False) cond_ready)) = Some 0"
  by (intro conjI) code_simp+

text \<open>A page with an input bound to the top-level field \<open>route\<close>.\<close>

definition model_page :: world where
  "model_page =
     \<lparr>state = [(''data'', JObj []), (''route'', JStr ''home''), (''theme'', JStr ''light'')],
      handlers = [],
      forest =
        [Element 0 ''DIV'' [(''id'', ''app'')] [] []
           [Element 1 ''INPUT'' [(''o-model'', ''route'')] [] [] []]],
      nextId = 2, console = [], invocations = []\<rparr>"

definition model_ready :: world where
  "model_ready =
     \<lparr>state = [(''data'', JObj []), (''route'', JStr ''home''), (''theme'', JStr ''light'')],
      handlers = [0],
      forest =
        [Element 0 ''DIV'' [(''id'', ''app'')] [] []
           [Element 1 ''INPUT'' [] ''home'' [InputListener ''route''] []]],
      nextId = 2, console = [], invocations = []\<rparr>"

text \<open>
  C2, on the page above. \<open>bindModel\<close> shows the value of \<open>route\<close> in the input, registers the
  listener and strips \<open>o-model\<close>. The write \<open>state.route = 'about'\<close> changes the bound path
  and runs one notification round, in which \<open>render\<close> applies \<open>bindModel\<close> to the elements
  that carry \<open>o-model\<close>; the input carries it no longer, and goes on showing the old value
  (with its one listener).
\<close>

theorem bound_input_is_not_resynced:
  "processDirectives 1 path_engine 0 model_page = Returned model_ready
   \<and> map_option inputValue (find_node 1 (forest model_ready)) = Some ''home''
   \<and> map_of (state (proxy_set path_engine ''route'' (JStr ''about'') model_ready)) ''route''
       = Some (JStr ''about'')
   \<and> invocations (proxy_set path_engine ''route'' (JStr ''about'') model_ready) = [0]
   \<and> map_option inputValue
         (find_node 1 (forest (proxy_set path_engine ''route'' (JStr ''about'') model_ready)))
       = Some ''home''
   \<and> map_option listeners
         (find_node 1 (forest (proxy_set path_engine ''route'' (JStr ''about'') model_ready)))
       = Some [InputListener ''route'']"
  by (intro conjI) code_simp+

section \<open>A repeat directive over a value that is no list\<close>

lemma match_for_empty: "match_for [] = None"
  by (simp add: match_for_def)

text \<open>
  C4, as the code has it. \<open>evalInContext(listExpr) || []\<close> replaces a falsy value by the
  empty list. A truthy value that is no list (a non-empty string, a non-zero number, \<open>true\<close>,
  an object) reaches \<open>list.forEach\<close>, and the call throws a \<open>TypeError\<close> out of \<open>processFor\<close>,
  after the template element was removed.
\<close>

theorem truthy_non_list_throws:
  assumes "find_node i (forest w) = Some node"
    and "getAttribute node ''o-for'' = Some forExpr"
    and "match_for forExpr = Some (itemName, listExpr)"
    and "run_expr eng listExpr (state w) = Inr v"
    and "truthy v" and "\<not> is_list v"
  shows "processFor k eng i w
         = Threw (TypeError ''list.forEach is not a function'')
             (w\<lparr>forest := remove i (forest w)\<rparr>)"
proof -
  have "forExpr \<noteq> []" using assms(3) match_for_empty by auto
  moreover have "evalInContext eng (state w) listExpr = (v, [])"
    using assms(4) by (simp add: evalInContext_def)
  ultimately show ?thesis using assms
    by (cases v) (simp_all add: processFor_head_def write_console_def)
qed

definition title_page :: world where
  "title_page =
     \<lparr>state = [(''data'', JObj [(''title'', JStr ''Olly'')]), (''route'', JStr ''home''),
               (''theme'', JStr ''light'')],
      handlers = [],
      forest =
        [Element 0 ''DIV'' [(''id'', ''app'')] [] []
           [Element 1 ''UL'' [] [] []
              [Element 2 ''LI'' [(''o-for'', ''c in title'')] [] [] [TextNode 3 ''{{ c }}'']],
            Element 4 ''P'' [] [] [] [TextNode 5 ''{{ title }}'']]],
      nextId = 6, console = [], invocations = []\<rparr>"

definition title_aborted :: world where
  "title_aborted =
     \<lparr>state = [(''data'', JObj [(''title'', JStr ''Olly'')]), (''route'', JStr ''home''),
               (''theme'', JStr ''light'')],
      handlers = [],
      forest =
        [Element 0 ''DIV'' [(''id'', ''app'')] [] []
           [Element 1 ''UL'' [] [] [] [],
            Element 4 ''P'' [] [] [] [TextNode 5 ''{{ title }}'']],
         Element 2 ''LI'' [(''o-for'', ''c in title'')] [] [] [TextNode 3 ''{{ c }}'']],
      nextId = 6, console = [], invocations = []\<rparr>"

text \<open>
  On the page above the list expression is the string \<open>Olly\<close>: the exception leaves
  \<open>processDirectives\<close> too, before the later passes and the registration of the callback.
\<close>

theorem truthy_non_list_throws_witness:
  "processFor 0 path_engine 2 title_page
     = Threw (TypeError ''list.forEach is not a function'') title_aborted
   \<and> processDirectives 1 path_engine 0 title_page
     = Threw (TypeError ''list.forEach is not a function'') title_aborted"
proof -
  have a: "find_node 2 (forest title_page)
           = Some (Element 2 ''LI'' [(''o-for'', ''c in title'')] [] [] [TextNode 3 ''{{ c }}''])"
    by code_simp
  have b: "getAttribute (Element 2 ''LI'' [(''o-for'', ''c in title'')] [] [] [TextNode 3 ''{{ c }}''])
             ''o-for'' = Some ''c in title''"
    by code_simp
  have c: "match_for ''c in title'' = Some (''c'', ''title'')"
    by code_simp
  have d: "run_expr path_engine ''title'' (state title_page) = Inr (JStr ''Olly'')"
    by code_simp
  have e: "title_page\<lparr>forest := remove 2 (forest title_page)\<rparr> = title_aborted"
    by code_simp
  have f: "querySelectorAll ''o-for'' 0 (forest title_page) = [2]"
    by code_simp
  have g: "processFor 0 path_engine 2 title_page
           = Threw (TypeError ''list.forEach is not a function'') title_aborted"
    using truthy_non_list_throws [OF a b c d, of 0] e by simp
  then show ?thesis using f by simp
qed

section \<open>Notification rounds and the repeated elements\<close>

text \<open>
  The outline of a node: identities, tags, the names of the attributes (\<open>o-model\<close> apart,
  which \<open>bindModel\<close> strips) and the tree structure; texts, attribute values, displayed
  values and listeners are left out.
\<close>

fun outline :: "node \<Rightarrow> node" where
  "outline (TextNode i s) = TextNode i []"
| "outline (OtherNode i) = OtherNode i"
| "outline (Element i t as v ls cs) =
     Element i t (map (\<lambda>(k, x). (k, [])) (filter (\<lambda>(k, x). k \<noteq> ''o-model'') as)) [] []
       (map outline cs)"


lemma nodeId_outline [simp]: "nodeId (outline n) = nodeId n"
  by (cases n) simp_all

lemma is_element_outline [simp]: "is_element (outline n) = is_element n"
  by (cases n) simp_all






lemma find_map_id:
  "(\<And>x. P (g x) = P x) \<Longrightarrow> find P (map g xs) = map_option g (find P xs)"
  by (induction xs) simp_all













lemma nodes_of_self: "n \<in> set (nodes_of n)"
  by (cases n) simp_all

lemma nodes_of_trans: "m \<in> set (nodes_of n) \<Longrightarrow> set (nodes_of m) \<subseteq> set (nodes_of n)"
  by (induction n) (auto split: if_splits)

lemma descendants_subset: "set (descendants n) \<subseteq> set (nodes_of n)"
  by (cases n) (auto simp: descendants_def)

lemma find_node_mem: "find_node i F = Some r \<Longrightarrow> r \<in> set (forest_nodes F) \<and> nodeId r = i"
  by (auto simp: find_node_def find_Some_iff)

lemma forest_nodes_trans: "r \<in> set (forest_nodes F) \<Longrightarrow> set (nodes_of r) \<subseteq> set (forest_nodes F)"
  using nodes_of_trans by (fastforce simp: forest_nodes_def)













section \<open>Directive attributes after the first pass\<close>

text \<open>
  The identities of a subtree and of a forest, in document order. A page is well formed when
  no identity occurs twice and every identity in use lies below the next one to be given
  out. \<open>under root F\<close> are the nodes below the root, \<open>consumed\<close> tells that a node carries
  no directive of the given name with an expression.
\<close>

definition ids :: "node \<Rightarrow> nid list" where
  "ids n = map nodeId (nodes_of n)"

definition forest_ids :: "node list \<Rightarrow> nid list" where
  "forest_ids F = map nodeId (forest_nodes F)"

definition well_formed :: "world \<Rightarrow> bool" where
  "well_formed w \<longleftrightarrow>
     distinct (forest_ids (forest w)) \<and> list_all (\<lambda>i. i < nextId w) (forest_ids (forest w))"

definition under :: "nid \<Rightarrow> node list \<Rightarrow> node list" where
  "under root F = (case find_node root F of None \<Rightarrow> [] | Some r \<Rightarrow> descendants r)"

definition consumed :: "string \<Rightarrow> node \<Rightarrow> bool" where
  "consumed name n \<longleftrightarrow> getAttribute n name = None \<or> getAttribute n name = Some []"

lemma nodes_of_alt: "nodes_of n = n # descendants n"
  by (cases n) (simp_all add: descendants_def)

lemma ids_alt: "ids n = nodeId n # concat (map ids (childNodes n))"
  by (cases n) (simp_all add: ids_def [abs_def] map_concat comp_def)

lemma forest_ids_alt: "forest_ids F = concat (map ids F)"
  by (simp add: forest_ids_def forest_nodes_def ids_def [abs_def] map_concat comp_def)

lemma forest_ids_append: "forest_ids (F @ G) = forest_ids F @ forest_ids G"
  by (simp add: forest_ids_alt)

lemma unique_node:
  assumes "distinct (forest_ids F)" "n \<in> set (forest_nodes F)" "m \<in> set (forest_nodes F)"
    "nodeId n = nodeId m"
  shows "n = m"
proof -
  have "inj_on nodeId (set (forest_nodes F))"
    using assms(1) by (simp add: forest_ids_def distinct_map)
  then show ?thesis using assms(2-4) by (auto dest: inj_onD)
qed

lemma find_node_unique:
  assumes "distinct (forest_ids F)" "n \<in> set (forest_nodes F)"
  shows "find_node (nodeId n) F = Some n"
proof -
  obtain m where m: "find_node (nodeId n) F = Some m"
    using assms(2) by (cases "find_node (nodeId n) F") (auto simp: find_node_def find_None_iff)
  then have "m \<in> set (forest_nodes F) \<and> nodeId m = nodeId n" by (rule find_node_mem)
  then have "m = n" using unique_node [OF assms(1) _ assms(2)] by blast
  with m show ?thesis by simp
qed

text \<open>Changes to a node that leave its identity and its children alone.\<close>

definition shallow :: "(node \<Rightarrow> node) \<Rightarrow> bool" where
  "shallow f \<longleftrightarrow> (\<forall>n. nodeId (f n) = nodeId n \<and> childNodes (f n) = childNodes n)"

lemma nodeId_map_node: "shallow f \<Longrightarrow> nodeId (map_node i f n) = nodeId n"
  by (cases n) (simp_all add: shallow_def Let_def)

lemma nodes_of_shallow:
  "shallow f \<Longrightarrow> nodes_of (f n) = f n # concat (map nodes_of (childNodes n))"
  by (simp add: nodes_of_alt [of "f n"] descendants_def shallow_def)

lemma nodes_of_map_node:
  assumes "shallow f"
  shows "nodes_of (map_node i f n) = map (map_node i f) (nodes_of n)"
proof (induction n)
  case (TextNode j s)
  show ?case using assms by (simp add: nodes_of_shallow)
next
  case (OtherNode j)
  show ?case using assms by (simp add: nodes_of_shallow)
next
  case (Element j t as v ls cs)
  have "concat (map nodes_of (map (map_node i f) cs))
        = map (map_node i f) (concat (map nodes_of cs))"
    using Element.IH by (simp add: map_concat comp_def cong: map_cong)
  then show ?case using assms by (simp add: Let_def nodes_of_shallow)
qed

lemma forest_nodes_update:
  "shallow f \<Longrightarrow> forest_nodes (update_node i f F) = map (map_node i f) (forest_nodes F)"
  by (simp add: forest_nodes_def update_node_def map_concat comp_def nodes_of_map_node)

lemma forest_ids_update: "shallow f \<Longrightarrow> forest_ids (update_node i f F) = forest_ids F"
  by (simp add: forest_ids_def forest_nodes_update comp_def nodeId_map_node)

lemma find_node_update:
  "shallow f \<Longrightarrow> find_node j (update_node i f F) = map_option (map_node i f) (find_node j F)"
  by (simp add: find_node_def forest_nodes_update find_map_id nodeId_map_node)

lemma descendants_map_node:
  "shallow f \<Longrightarrow> descendants (map_node i f n) = map (map_node i f) (descendants n)"
  using nodes_of_map_node [of f i n] by (simp add: nodes_of_alt)

lemma under_update:
  "shallow f \<Longrightarrow> under root (update_node i f F) = map (map_node i f) (under root F)"
  by (cases "find_node root F") (simp_all add: under_def find_node_update descendants_map_node)

text \<open>The subtrees that \<open>prune\<close> cuts off.\<close>

fun cut :: "nid \<Rightarrow> node \<Rightarrow> node list" where
  "cut i (Element j t as v ls cs) =
     filter (\<lambda>c. nodeId c = i) cs @ concat (map (cut i) (filter (\<lambda>c. nodeId c \<noteq> i) cs))"
| "cut i n = []"

lemma nodeId_prune [simp]: "nodeId (prune i n) = nodeId n"
  by (cases n) simp_all

lemma attributes_prune [simp]: "attributes (prune i n) = attributes n"
  by (cases n) simp_all

lemma mset_concat_filter:
  "mset (concat (map g xs))
   = mset (concat (map g (filter P xs))) + mset (concat (map g (filter (\<lambda>x. \<not> P x) xs)))"
  by (induction xs) simp_all

lemma mset_ids_prune_list:
  assumes "\<And>c. c \<in> set ys \<Longrightarrow>
             mset (ids c) = mset (ids (prune i c)) + mset (concat (map ids (cut i c)))"
  shows "mset (concat (map ids ys))
         = mset (concat (map (\<lambda>c. ids (prune i c)) ys))
           + mset (concat (map ids (concat (map (cut i) ys))))"
  using assms by (induction ys) simp_all

lemma mset_ids_prune:
  "mset (ids n) = mset (ids (prune i n)) + mset (concat (map ids (cut i n)))"
proof (induction n)
  case (TextNode j s)
  show ?case by simp
next
  case (OtherNode j)
  show ?case by simp
next
  case (Element j t as v ls cs)
  let ?keep = "filter (\<lambda>c. nodeId c \<noteq> i) cs"
  let ?drop = "filter (\<lambda>c. nodeId c = i) cs"
  have a: "mset (concat (map ids cs)) = mset (concat (map ids ?drop)) + mset (concat (map ids ?keep))"
    using mset_concat_filter [of ids cs "\<lambda>c. nodeId c = i"] by simp
  have b: "mset (concat (map ids ?keep))
           = mset (concat (map (\<lambda>c. ids (prune i c)) ?keep))
             + mset (concat (map ids (concat (map (cut i) ?keep))))"
    by (rule mset_ids_prune_list) (simp add: Element.IH)
  show ?case
    using a b by (simp add: ids_alt [of "Element j t as v ls cs"]
        ids_alt [of "Element j t as v ls (map (prune i) ?keep)"] comp_def)
qed

lemma mset_forest_ids_prune:
  "mset (forest_ids F)
   = mset (forest_ids (map (prune i) F)) + mset (concat (map ids (concat (map (cut i) F))))"
  using mset_ids_prune_list [of F i] by (simp add: forest_ids_alt comp_def mset_ids_prune)

lemma descendants_Element:
  "descendants (Element j t as v ls cs) = concat (map nodes_of cs)"
  by (simp add: descendants_def)

lemma cut_mem: "c \<in> set (cut i n) \<Longrightarrow> nodeId c = i \<and> c \<in> set (descendants n)"
proof (induction n)
  case (Element j t as v ls cs)
  from Element.prems consider
    (here) "c \<in> set cs" "nodeId c = i" |
    (below) d where "d \<in> set cs" "c \<in> set (cut i d)"
    by auto
  then show ?case
  proof cases
    case here
    then show ?thesis using nodes_of_self by (auto simp: descendants_Element)
  next
    case below
    from Element.IH [OF below] have "nodeId c = i" "c \<in> set (descendants d)" by simp_all
    then show ?thesis using below(1) descendants_subset by (auto simp: descendants_Element)
  qed
qed simp_all

lemma cut_nonempty:
  "p \<in> set (nodes_of n) \<Longrightarrow> i \<in> nodeId ` set (childNodes p) \<Longrightarrow> cut i n \<noteq> []"
proof (induction n)
  case (Element j t as v ls cs)
  show ?case
  proof (cases "p = Element j t as v ls cs")
    case True
    with Element.prems(2) show ?thesis by (auto simp: filter_empty_conv)
  next
    case False
    with Element.prems(1) obtain c where c: "c \<in> set cs" "p \<in> set (nodes_of c)" by auto
    show ?thesis
    proof (cases "nodeId c = i")
      case True
      with c(1) show ?thesis by (auto simp: filter_empty_conv)
    next
      case False
      have "cut i c \<noteq> []" using Element.IH [OF c Element.prems(2)] .
      with c(1) False show ?thesis by auto
    qed
  qed
qed auto

lemma forest_cut_mem:
  "c \<in> set (concat (map (cut i) F)) \<Longrightarrow> nodeId c = i \<and> c \<in> set (forest_nodes F)"
  using cut_mem descendants_subset by (fastforce simp: forest_nodes_def)

lemma forest_cut_nonempty:
  "p \<in> set (forest_nodes F) \<Longrightarrow> i \<in> nodeId ` set (childNodes p) \<Longrightarrow>
   concat (map (cut i) F) \<noteq> []"
  using cut_nonempty by (fastforce simp: forest_nodes_def)

lemma ids_nonempty: "nodeId n \<in> set (ids n)"
  by (simp add: ids_alt [of n])

lemma parent_of_Some:
  "parent_of i F = Some p \<Longrightarrow>
   \<exists>q \<in> set (forest_nodes F). i \<in> nodeId ` set (childNodes q)"
  by (auto simp: parent_of_def find_Some_iff)

lemma forest_cut_single:
  assumes d: "distinct (forest_ids F)" and p: "parent_of i F = Some p"
    and n: "find_node i F = Some node"
  shows "concat (map (cut i) F) = [node]"
proof -
  let ?C = "concat (map (cut i) F)"
  have ne: "?C \<noteq> []" using parent_of_Some [OF p] forest_cut_nonempty by blast
  have all: "\<And>c. c \<in> set ?C \<Longrightarrow> c = node"
    using forest_cut_mem unique_node [OF d] find_node_mem [OF n] by metis
  have "distinct (forest_ids (map (prune i) F) @ concat (map ids ?C))"
    using d mset_forest_ids_prune [of F i]
    by (metis mset_append mset_eq_imp_distinct_iff)
  then have dc: "distinct (concat (map ids ?C))" by simp
  show ?thesis
  proof (cases ?C)
    case Nil
    with ne show ?thesis by simp
  next
    case (Cons c cs)
    have c: "c = node" using all Cons by simp
    have "cs = []"
    proof (cases cs)
      case Nil
      then show ?thesis .
    next
      case (Cons c' cs')
      have "c' = node" using all \<open>?C = c # cs\<close> Cons by simp
      then have "nodeId node \<in> set (ids c) \<inter> set (ids c')" using c ids_nonempty by auto
      then show ?thesis using dc \<open>?C = c # cs\<close> Cons by auto
    qed
    with Cons c show ?thesis by simp
  qed
qed

lemma mset_forest_ids_remove:
  assumes "distinct (forest_ids F)"
  shows "mset (forest_ids (remove i F)) = mset (forest_ids F)"
proof (cases "parent_of i F")
  case None
  then show ?thesis by (simp add: remove_def)
next
  case (Some p)
  show ?thesis
  proof (cases "find_node i F")
    case None
    with Some show ?thesis by (simp add: remove_def)
  next
    case (Some node)
    have "concat (map (cut i) F) = [node]" using forest_cut_single [OF assms \<open>parent_of i F = Some p\<close> Some] .
    then have "mset (forest_ids F) = mset (forest_ids (map (prune i) F)) + mset (ids node)"
      using mset_forest_ids_prune [of F i] by simp
    then show ?thesis
      using Some \<open>parent_of i F = Some p\<close> by (simp add: remove_def forest_ids_append forest_ids_alt [of "[node]"])
  qed
qed

lemma distinct_remove: "distinct (forest_ids F) \<Longrightarrow> distinct (forest_ids (remove i F))"
  using mset_forest_ids_remove mset_eq_imp_distinct_iff by blast

lemma set_forest_ids_remove:
  "distinct (forest_ids F) \<Longrightarrow> set (forest_ids (remove i F)) = set (forest_ids F)"
  using mset_forest_ids_remove mset_eq_setD by blast

lemma nodes_prune:
  "m' \<in> set (nodes_of (prune i n)) \<Longrightarrow> nodeId n \<noteq> i \<Longrightarrow>
   \<exists>m \<in> set (nodes_of n). m' = prune i m \<and> nodeId m \<noteq> i"
proof (induction n)
  case (Element j t as v ls cs)
  let ?n = "Element j t as v ls cs"
  show ?case
  proof (cases "m' = prune i ?n")
    case True
    then show ?thesis using Element.prems(2) by (intro bexI [of _ ?n]) simp_all
  next
    case False
    with Element.prems(1) obtain c where
      c: "c \<in> set cs" "nodeId c \<noteq> i" "m' \<in> set (nodes_of (prune i c))"
      by auto
    from Element.IH [OF c(1) c(3) c(2)] obtain m where
      "m \<in> set (nodes_of c)" "m' = prune i m" "nodeId m \<noteq> i" by blast
    then show ?thesis using c(1) by auto
  qed
qed auto

lemma descendants_prune:
  "m' \<in> set (descendants (prune i n)) \<Longrightarrow>
   \<exists>m \<in> set (descendants n). m' = prune i m \<and> nodeId m \<noteq> i"
proof (cases n)
  case (Element j t as v ls cs)
  assume "m' \<in> set (descendants (prune i n))"
  with Element obtain c where
    c: "c \<in> set cs" "nodeId c \<noteq> i" "m' \<in> set (nodes_of (prune i c))"
    by (auto simp: descendants_Element)
  from nodes_prune [OF c(3) c(2)] obtain m where
    "m \<in> set (nodes_of c)" "m' = prune i m" "nodeId m \<noteq> i" by blast
  then show ?thesis using c(1) Element by (auto simp: descendants_Element)
qed (simp_all add: descendants_def)

lemma nodes_prune_weak:
  "m' \<in> set (nodes_of (prune i n)) \<Longrightarrow> \<exists>m \<in> set (nodes_of n). m' = prune i m"
proof -
  assume a: "m' \<in> set (nodes_of (prune i n))"
  then have "m' = prune i n \<or> m' \<in> set (descendants (prune i n))"
    by (simp add: nodes_of_alt [of "prune i n"])
  then show ?thesis
    using descendants_prune [of m' i n] nodes_of_self [of n] descendants_subset [of n] by blast
qed

lemma forest_nodes_prune:
  "m' \<in> set (forest_nodes (map (prune i) F)) \<Longrightarrow> \<exists>m \<in> set (forest_nodes F). m' = prune i m"
  using nodes_prune_weak by (fastforce simp: forest_nodes_def)

lemma descendants_trans:
  "r \<in> set (nodes_of n) \<Longrightarrow> set (descendants r) \<subseteq> set (descendants n)"
proof (induction n)
  case (Element j t as v ls cs)
  show ?case
  proof (cases "r = Element j t as v ls cs")
    case True
    then show ?thesis by simp
  next
    case False
    with Element.prems obtain c where c: "c \<in> set cs" "r \<in> set (nodes_of c)" by auto
    have "set (descendants r) \<subseteq> set (descendants c)" using Element.IH [OF c] .
    also have "\<dots> \<subseteq> set (nodes_of c)" by (rule descendants_subset)
    also have "\<dots> \<subseteq> set (descendants (Element j t as v ls cs))"
      using c(1) by (auto simp: descendants_Element)
    finally show ?thesis .
  qed
qed auto

lemma descendant_has_parent:
  "m \<in> set (descendants n) \<Longrightarrow> \<exists>q \<in> set (nodes_of n). m \<in> set (childNodes q)"
proof (induction n)
  case (Element j t as v ls cs)
  from Element.prems obtain c where c: "c \<in> set cs" "m \<in> set (nodes_of c)"
    by (auto simp: descendants_Element)
  show ?case
  proof (cases "m = c")
    case True
    with c(1) show ?thesis by (intro bexI [of _ "Element j t as v ls cs"]) simp_all
  next
    case False
    with c(2) have "m \<in> set (descendants c)" by (simp add: nodes_of_alt [of c])
    from Element.IH [OF c(1) this] obtain q where "q \<in> set (nodes_of c)" "m \<in> set (childNodes q)"
      by blast
    then show ?thesis using c(1) by auto
  qed
qed (simp_all add: descendants_def)

lemma distinct_concat_mem: "distinct (concat xss) \<Longrightarrow> xs \<in> set xss \<Longrightarrow> distinct xs"
  by (induction xss) auto

lemma distinct_ids_nodes: "distinct (ids n) \<Longrightarrow> m \<in> set (nodes_of n) \<Longrightarrow> distinct (ids m)"
proof (induction n)
  case (Element j t as v ls cs)
  show ?case
  proof (cases "m = Element j t as v ls cs")
    case True
    with Element.prems(1) show ?thesis by simp
  next
    case False
    with Element.prems(2) obtain c where c: "c \<in> set cs" "m \<in> set (nodes_of c)" by auto
    have "distinct (concat (map ids cs))"
      using Element.prems(1) by (simp add: ids_alt [of "Element j t as v ls cs"])
    then have "distinct (ids c)" using c(1) by (auto intro: distinct_concat_mem)
    from Element.IH [OF c(1) this c(2)] show ?thesis .
  qed
qed auto

lemma distinct_ids_sub:
  "distinct (forest_ids F) \<Longrightarrow> n \<in> set (forest_nodes F) \<Longrightarrow> distinct (ids n)"
proof -
  assume d: "distinct (forest_ids F)" and n: "n \<in> set (forest_nodes F)"
  from n obtain T where T: "T \<in> set F" "n \<in> set (nodes_of T)" by (auto simp: forest_nodes_def)
  have "distinct (ids T)" using d T(1) by (auto simp: forest_ids_alt intro: distinct_concat_mem)
  then show ?thesis using T(2) by (rule distinct_ids_nodes)
qed

lemma descendant_id_differs:
  "distinct (ids n) \<Longrightarrow> m \<in> set (descendants n) \<Longrightarrow> nodeId m \<noteq> nodeId n"
proof -
  assume d: "distinct (ids n)" and m: "m \<in> set (descendants n)"
  have "ids n = nodeId n # map nodeId (descendants n)"
    by (simp add: ids_def nodes_of_alt [of n])
  with d have "nodeId n \<notin> set (map nodeId (descendants n))" by simp
  with m show ?thesis by (metis imageI set_map)
qed

lemma under_mem:
  "n \<in> set (under root F) \<Longrightarrow> \<exists>r. find_node root F = Some r \<and> n \<in> set (descendants r)"
  by (cases "find_node root F") (simp_all add: under_def)

text \<open>
  What is below a root after \<open>remove\<close>: nodes that were below it before, with their
  attributes, the removed node not among them.
\<close>

lemma under_remove:
  assumes d: "distinct (forest_ids F)" and n': "n' \<in> set (under root (remove i F))"
  shows "\<exists>n \<in> set (under root F).
           nodeId n' = nodeId n \<and> attributes n' = attributes n \<and> nodeId n \<noteq> i"
proof (cases "\<exists>p node. parent_of i F = Some p \<and> find_node i F = Some node")
  case False
  then have same: "remove i F = F" by (auto simp: remove_def split: option.splits)
  with n' obtain r where r: "find_node root F = Some r" "n' \<in> set (descendants r)"
    using under_mem by fastforce
  have "nodeId n' \<noteq> i"
  proof
    assume eq: "nodeId n' = i"
    from descendant_has_parent [OF r(2)] obtain q where
      q: "q \<in> set (nodes_of r)" "n' \<in> set (childNodes q)" by blast
    have rF: "set (nodes_of r) \<subseteq> set (forest_nodes F)"
      using find_node_mem [OF r(1)] forest_nodes_trans by blast
    have "q \<in> set (forest_nodes F) \<and> i \<in> set (map nodeId (childNodes q))"
      using q rF eq by auto
    then have "parent_of i F \<noteq> None" by (auto simp: parent_of_def find_None_iff)
    moreover have "n' \<in> set (forest_nodes F)" using r(2) rF descendants_subset by blast
    then have "find_node i F \<noteq> None" using eq by (auto simp: find_node_def find_None_iff)
    ultimately show False using False by auto
  qed
  then show ?thesis using n' same by auto
next
  case True
  then obtain p node where p: "parent_of i F = Some p" and node: "find_node i F = Some node"
    by blast
  have F': "remove i F = map (prune i) F @ [node]" using p node by (simp add: remove_def)
  from n' obtain r' where r': "find_node root (remove i F) = Some r'" "n' \<in> set (descendants r')"
    using under_mem by blast
  have nodeF: "node \<in> set (forest_nodes F)" "nodeId node = i"
    using find_node_mem [OF node] by simp_all
  from find_node_mem [OF r'(1)] have
    where_r: "r' \<in> set (forest_nodes (map (prune i) F)) \<or> r' \<in> set (nodes_of node)" and
    idr: "nodeId r' = root"
    by (auto simp: F' forest_nodes_def)
  from where_r show ?thesis
  proof
    assume "r' \<in> set (forest_nodes (map (prune i) F))"
    then obtain r0 where r0: "r0 \<in> set (forest_nodes F)" "r' = prune i r0"
      using forest_nodes_prune by blast
    have "find_node root F = Some r0" using find_node_unique [OF d r0(1)] idr r0(2) by simp
    moreover from descendants_prune [of n' i r0] r'(2) r0(2) obtain m where
      "m \<in> set (descendants r0)" "n' = prune i m" "nodeId m \<noteq> i" by blast
    ultimately show ?thesis by (auto simp: under_def)
  next
    assume in_node: "r' \<in> set (nodes_of node)"
    then have "r' \<in> set (forest_nodes F)" using nodeF(1) forest_nodes_trans by blast
    then have f: "find_node root F = Some r'" using find_node_unique [OF d] idr by blast
    have "set (descendants r') \<subseteq> set (descendants node)" using in_node by (rule descendants_trans)
    then have "n' \<in> set (descendants node)" using r'(2) by blast
    then have "nodeId n' \<noteq> i"
      using descendant_id_differs [OF distinct_ids_sub [OF d nodeF(1)]] nodeF(2) by metis
    then show ?thesis using f r'(2) by (auto simp: under_def)
  qed
qed

definition wf_forest :: "nid \<Rightarrow> node list \<Rightarrow> bool" where
  "wf_forest k F \<longleftrightarrow> distinct (forest_ids F) \<and> list_all (\<lambda>i. i < k) (forest_ids F)"

lemma well_formed_alt: "well_formed w = wf_forest (nextId w) (forest w)"
  by (simp add: well_formed_def wf_forest_def)

lemma wf_forest_mset:
  "wf_forest k F \<Longrightarrow> mset (forest_ids F') = mset (forest_ids F) \<Longrightarrow> wf_forest k F'"
  by (metis wf_forest_def mset_eq_imp_distinct_iff mset_eq_setD list_all_iff)

lemma wf_forest_remove: "wf_forest k F \<Longrightarrow> wf_forest k (remove i F)"
  using wf_forest_mset mset_forest_ids_remove by (metis wf_forest_def)

lemma wf_forest_update: "shallow f \<Longrightarrow> wf_forest k F \<Longrightarrow> wf_forest k (update_node i f F)"
  by (simp add: wf_forest_def forest_ids_update)

definition pending :: "string \<Rightarrow> nid \<Rightarrow> node list \<Rightarrow> nid list \<Rightarrow> bool" where
  "pending name root F L \<longleftrightarrow>
     list_all (\<lambda>n. consumed name n \<or> nodeId n \<in> set L) (under root F)"

definition clean :: "string \<Rightarrow> nid \<Rightarrow> node list \<Rightarrow> bool" where
  "clean name root F \<longleftrightarrow> list_all (consumed name) (under root F)"

lemma pending_Nil: "pending name root F [] = clean name root F"
  by (simp add: pending_def clean_def)

lemma under_subset: "set (under root F) \<subseteq> set (forest_nodes F)"
proof (cases "find_node root F")
  case None
  then show ?thesis by (simp add: under_def)
next
  case (Some r)
  have "set (descendants r) \<subseteq> set (forest_nodes F)"
    using find_node_mem [OF Some] forest_nodes_trans descendants_subset by blast
  with Some show ?thesis by (simp add: under_def)
qed

lemma not_consumed_has:
  "\<not> consumed name n \<Longrightarrow> is_element n \<and> hasAttribute name n"
proof -
  assume "\<not> consumed name n"
  then obtain x where x: "map_of (attributes n) name = Some x"
    by (auto simp: consumed_def getAttribute_def)
  then have "(name, x) \<in> set (attributes n)" by (rule map_of_SomeD)
  then have "name \<in> set (map fst (attributes n))" by force
  moreover have "is_element n" using x by (cases n) simp_all
  ultimately show ?thesis by (simp add: hasAttribute_def)
qed

lemma pending_snapshot: "pending name root F (querySelectorAll name root F)"
proof (cases "find_node root F")
  case None
  then show ?thesis by (simp add: pending_def under_def)
next
  case (Some r)
  have "\<And>n. n \<in> set (descendants r) \<Longrightarrow> \<not> consumed name n \<Longrightarrow>
          nodeId n \<in> nodeId ` {m \<in> set (descendants r). is_element m \<and> hasAttribute name m}"
    using not_consumed_has by blast
  then show ?thesis using Some
    by (auto simp: pending_def under_def querySelectorAll_def list_all_iff)
qed

lemma consumed_cong:
  "attributes n' = attributes n \<Longrightarrow> consumed name n' = consumed name n"
  by (simp add: consumed_def getAttribute_def)

lemma skip_step:
  assumes d: "distinct (forest_ids F)"
    and s: "find_node i F = None \<or> (\<exists>node. find_node i F = Some node \<and> consumed name node)"
    and p: "pending name root F (i # L)"
  shows "pending name root F L"
proof -
  have "consumed name n \<or> nodeId n \<in> set L" if n: "n \<in> set (under root F)" for n
  proof (cases "nodeId n = i")
    case False
    with p n show ?thesis by (auto simp: pending_def list_all_iff)
  next
    case True
    have nF: "n \<in> set (forest_nodes F)" using n under_subset by blast
    then have "find_node i F = Some n" using find_node_unique [OF d nF] True by simp
    with s show ?thesis by auto
  qed
  then show ?thesis by (simp add: pending_def list_all_iff)
qed

lemma remove_step:
  assumes d: "distinct (forest_ids F)" and p: "pending name root F (i # L)"
  shows "pending name root (remove i F) L"
proof -
  have "consumed name n' \<or> nodeId n' \<in> set L" if n': "n' \<in> set (under root (remove i F))" for n'
  proof -
    from under_remove [OF d n'] obtain n where
      n: "n \<in> set (under root F)" "nodeId n' = nodeId n" "attributes n' = attributes n"
         "nodeId n \<noteq> i"
      by blast
    have "consumed name n \<or> nodeId n \<in> set (i # L)"
      using p n(1) by (simp add: pending_def list_all_iff)
    then show ?thesis using n consumed_cong [OF n(3)] by (metis set_ConsD)
  qed
  then show ?thesis by (simp add: pending_def list_all_iff)
qed

lemma strip_step:
  assumes f: "shallow f"
    and a: "\<And>n. getAttribute (map_node i f n) name
                 = (if nodeId n = i then None else getAttribute n name)"
    and p: "pending name root F (i # L)"
  shows "pending name root (update_node i f F) L"
proof -
  have "consumed name (map_node i f n) \<or> nodeId (map_node i f n) \<in> set L"
    if n: "n \<in> set (under root F)" for n
  proof (cases "nodeId n = i")
    case True
    then show ?thesis by (simp add: consumed_def a)
  next
    case False
    have "consumed name n \<or> nodeId n \<in> set (i # L)"
      using p n by (simp add: pending_def list_all_iff)
    then show ?thesis using False by (auto simp: consumed_def a nodeId_map_node [OF f])
  qed
  then show ?thesis by (simp add: pending_def list_all_iff under_update [OF f])
qed

lemma keep_step:
  assumes f: "shallow f"
    and a: "\<And>n. getAttribute (map_node i f n) name = getAttribute n name"
    and c: "clean name root F"
  shows "clean name root (update_node i f F)"
  using c by (simp add: clean_def list_all_iff under_update [OF f] consumed_def a)

lemma map_of_filter_neq:
  "map_of (filter (\<lambda>(k, x). k \<noteq> nm) as) name = (if name = nm then None else map_of as name)"
  by (induction as) auto

lemma getAttribute_removeAttribute:
  "getAttribute (removeAttribute nm n) name = (if name = nm then None else getAttribute n name)"
  by (cases n) (simp_all add: getAttribute_def map_of_filter_neq)

lemma shallow_strip: "shallow (removeAttribute nm)"
  unfolding shallow_def
proof
  fix n show "nodeId (removeAttribute nm n) = nodeId n \<and> childNodes (removeAttribute nm n) = childNodes n"
    by (cases n) simp_all
qed

lemma getAttribute_map_node:
  assumes "\<And>j t as v ls cs cs'.
             attributes (f (Element j t as v ls cs)) = attributes (f (Element j t as v ls cs'))"
  shows "getAttribute (map_node i f n) name
         = (if nodeId n = i then getAttribute (f n) name else getAttribute n name)"
proof (cases n)
  case (Element j t as v ls cs)
  have "attributes (f (Element j t as v ls (map (map_node i f) cs)))
        = attributes (f (Element j t as v ls cs))"
    by (rule assms)
  then show ?thesis using Element by (auto simp: getAttribute_def Let_def)
qed simp_all

definition bind_input :: "listener \<Rightarrow> string \<Rightarrow> node \<Rightarrow> node" where
  "bind_input l x n = (if input_capable n then addEventListener l (set_inputValue x n) else n)"

lemma shallow_model: "shallow (\<lambda>n. removeAttribute nm (bind_input l x n))"
  unfolding shallow_def
proof
  fix n
  show "nodeId (removeAttribute nm (bind_input l x n)) = nodeId n
        \<and> childNodes (removeAttribute nm (bind_input l x n)) = childNodes n"
    by (cases n) (simp_all add: bind_input_def)
qed

lemma shallow_click: "shallow (\<lambda>n. removeAttribute nm (addEventListener l n))"
  unfolding shallow_def
proof
  fix n
  show "nodeId (removeAttribute nm (addEventListener l n)) = nodeId n
        \<and> childNodes (removeAttribute nm (addEventListener l n)) = childNodes n"
    by (cases n) simp_all
qed

lemma getAttribute_strip:
  "getAttribute (map_node i (removeAttribute nm) n) name
   = (if nodeId n = i \<and> name = nm then None else getAttribute n name)"
proof -
  have "getAttribute (map_node i (removeAttribute nm) n) name
        = (if nodeId n = i then getAttribute (removeAttribute nm n) name else getAttribute n name)"
    by (rule getAttribute_map_node) simp
  then show ?thesis by (simp add: getAttribute_removeAttribute)
qed

lemma getAttribute_bind_input: "getAttribute (bind_input l x n) name = getAttribute n name"
  by (cases n) (simp_all add: bind_input_def getAttribute_def)

lemma getAttribute_addEventListener: "getAttribute (addEventListener l n) name = getAttribute n name"
  by (cases n) (simp_all add: getAttribute_def)

lemma getAttribute_model:
  "getAttribute (map_node i (\<lambda>n. removeAttribute nm (bind_input l x n)) n) name
   = (if nodeId n = i \<and> name = nm then None else getAttribute n name)"
proof -
  have "getAttribute (map_node i (\<lambda>n. removeAttribute nm (bind_input l x n)) n) name
        = (if nodeId n = i then getAttribute (removeAttribute nm (bind_input l x n)) name
           else getAttribute n name)"
    by (rule getAttribute_map_node) (simp add: bind_input_def input_capable_def)
  then show ?thesis by (simp add: getAttribute_removeAttribute getAttribute_bind_input)
qed

lemma getAttribute_click:
  "getAttribute (map_node i (\<lambda>n. removeAttribute nm (addEventListener l n)) n) name
   = (if nodeId n = i \<and> name = nm then None else getAttribute n name)"
proof -
  have "getAttribute (map_node i (\<lambda>n. removeAttribute nm (addEventListener l n)) n) name
        = (if nodeId n = i then getAttribute (removeAttribute nm (addEventListener l n)) name
           else getAttribute n name)"
    by (rule getAttribute_map_node) simp
  then show ?thesis by (simp add: getAttribute_removeAttribute getAttribute_addEventListener)
qed

text \<open>What each handler does to the forest.\<close>

lemma processIf_forest:
  "nextId (processIf eng i w) = nextId w \<and>
   forest (processIf eng i w) =
     (case find_node i (forest w) of
        None \<Rightarrow> forest w
      | Some node \<Rightarrow>
          (case getAttribute node ''o-if'' of
             None \<Rightarrow> forest w
           | Some e \<Rightarrow>
               if e = [] then forest w
               else if \<not> truthy (fst (evalInContext eng (state w) e))
                    then remove i (forest w)
                    else update_node i (removeAttribute ''o-if'') (forest w)))"
  by (simp add: processIf_def Let_def split_def write_console_def split: option.splits)

lemma bindModel_forest:
  "nextId (bindModel eng i w) = nextId w \<and>
   forest (bindModel eng i w) =
     (case find_node i (forest w) of
        None \<Rightarrow> forest w
      | Some node \<Rightarrow>
          (case getAttribute node ''o-model'' of
             None \<Rightarrow> forest w
           | Some model \<Rightarrow>
               if model = [] then forest w
               else update_node i
                      (\<lambda>n. removeAttribute ''o-model''
                              (bind_input (InputListener model)
                                 (let cur = fst (evalInContext eng (state w) model)
                                  in if cur = Null \<or> cur = Undefined then [] else toString cur) n))
                      (forest w)))"
  by (simp add: bindModel_def Let_def split_def write_console_def bind_input_def
      split: option.splits)

lemma bindClick_forest:
  "nextId (bindClick i w) = nextId w \<and>
   forest (bindClick i w) =
     (case find_node i (forest w) of
        None \<Rightarrow> forest w
      | Some node \<Rightarrow>
          (case getAttribute node ''o-click'' of
             None \<Rightarrow> forest w
           | Some e \<Rightarrow>
               if e = [] then forest w
               else update_node i
                      (\<lambda>n. removeAttribute ''o-click'' (addEventListener (ClickListener e) n))
                      (forest w)))"
  by (simp add: bindClick_def split: option.splits)

lemma processIf_step:
  assumes w: "well_formed w" and p: "pending ''o-if'' root (forest w) (i # L)"
  shows "well_formed (processIf eng i w) \<and> pending ''o-if'' root (forest (processIf eng i w)) L"
proof -
  have wf: "wf_forest (nextId w) (forest w)" using w by (simp add: well_formed_alt)
  then have d: "distinct (forest_ids (forest w))" by (simp add: wf_forest_def)
  note F = processIf_forest [of eng i w]
  show ?thesis
  proof (cases "find_node i (forest w)")
    case None
    then show ?thesis using F wf skip_step [OF d _ p] by (simp add: well_formed_alt)
  next
    case (Some node)
    show ?thesis
    proof (cases "getAttribute node ''o-if''")
      case None
      then have "consumed ''o-if'' node" by (simp add: consumed_def)
      then show ?thesis using F wf Some None skip_step [OF d _ p] by (simp add: well_formed_alt)
    next
      case (Some e)
      show ?thesis
      proof (cases "e = []")
        case True
        then have "consumed ''o-if'' node" using Some by (simp add: consumed_def)
        then show ?thesis
          using F wf \<open>find_node i (forest w) = Some node\<close> Some True skip_step [OF d _ p]
          by (simp add: well_formed_alt)
      next
        case False
        show ?thesis
        proof (cases "truthy (fst (evalInContext eng (state w) e))")
          case True
          have "pending ''o-if'' root (update_node i (removeAttribute ''o-if'') (forest w)) L"
            by (rule strip_step [OF shallow_strip _ p]) (simp add: getAttribute_strip)
          then show ?thesis
            using F \<open>find_node i (forest w) = Some node\<close> Some False True
              wf_forest_update [OF shallow_strip wf]
            by (simp add: well_formed_alt)
        next
          case nt: False
          show ?thesis
            using F \<open>find_node i (forest w) = Some node\<close> Some False nt
              wf_forest_remove [OF wf] remove_step [OF d p]
            by (simp add: well_formed_alt)
        qed
      qed
    qed
  qed
qed

lemma bindModel_step:
  assumes w: "well_formed w" and p: "pending ''o-model'' root (forest w) (i # L)"
  shows "well_formed (bindModel eng i w) \<and> pending ''o-model'' root (forest (bindModel eng i w)) L"
proof -
  have wf: "wf_forest (nextId w) (forest w)" using w by (simp add: well_formed_alt)
  then have d: "distinct (forest_ids (forest w))" by (simp add: wf_forest_def)
  note F = bindModel_forest [of eng i w]
  show ?thesis
  proof (cases "find_node i (forest w)")
    case None
    then show ?thesis using F wf skip_step [OF d _ p] by (simp add: well_formed_alt)
  next
    case (Some node)
    show ?thesis
    proof (cases "getAttribute node ''o-model''")
      case None
      then have "consumed ''o-model'' node" by (simp add: consumed_def)
      then show ?thesis using F wf Some None skip_step [OF d _ p] by (simp add: well_formed_alt)
    next
      case (Some e)
      show ?thesis
      proof (cases "e = []")
        case True
        then have "consumed ''o-model'' node" using Some by (simp add: consumed_def)
        then show ?thesis
          using F wf \<open>find_node i (forest w) = Some node\<close> Some True skip_step [OF d _ p]
          by (simp add: well_formed_alt)
      next
        case False
        let ?f = "\<lambda>n. removeAttribute ''o-model''
                        (bind_input (InputListener e)
                           (let cur = fst (evalInContext eng (state w) e)
                            in if cur = Null \<or> cur = Undefined then [] else toString cur) n)"
        have "pending ''o-model'' root (update_node i ?f (forest w)) L"
          by (rule strip_step [OF shallow_model _ p]) (simp add: getAttribute_model)
        then show ?thesis
          using F \<open>find_node i (forest w) = Some node\<close> Some False
            wf_forest_update [OF shallow_model wf]
          by (simp add: well_formed_alt)
      qed
    qed
  qed
qed

lemma bindClick_step:
  assumes w: "well_formed w" and p: "pending ''o-click'' root (forest w) (i # L)"
  shows "well_formed (bindClick i w) \<and> pending ''o-click'' root (forest (bindClick i w)) L"
proof -
  have wf: "wf_forest (nextId w) (forest w)" using w by (simp add: well_formed_alt)
  then have d: "distinct (forest_ids (forest w))" by (simp add: wf_forest_def)
  note F = bindClick_forest [of i w]
  show ?thesis
  proof (cases "find_node i (forest w)")
    case None
    then show ?thesis using F wf skip_step [OF d _ p] by (simp add: well_formed_alt)
  next
    case (Some node)
    show ?thesis
    proof (cases "getAttribute node ''o-click''")
      case None
      then have "consumed ''o-click'' node" by (simp add: consumed_def)
      then show ?thesis using F wf Some None skip_step [OF d _ p] by (simp add: well_formed_alt)
    next
      case (Some e)
      show ?thesis
      proof (cases "e = []")
        case True
        then have "consumed ''o-click'' node" using Some by (simp add: consumed_def)
        then show ?thesis
          using F wf \<open>find_node i (forest w) = Some node\<close> Some True skip_step [OF d _ p]
          by (simp add: well_formed_alt)
      next
        case False
        let ?f = "\<lambda>n. removeAttribute ''o-click'' (addEventListener (ClickListener e) n)"
        have "pending ''o-click'' root (update_node i ?f (forest w)) L"
          by (rule strip_step [OF shallow_click _ p]) (simp add: getAttribute_click)
        then show ?thesis
          using F \<open>find_node i (forest w) = Some node\<close> Some False
            wf_forest_update [OF shallow_click wf]
          by (simp add: well_formed_alt)
      qed
    qed
  qed
qed

lemma bindModel_keeps:
  assumes "name \<noteq> ''o-model''" and c: "clean name root (forest w)"
  shows "clean name root (forest (bindModel eng i w))"
proof -
  have "clean name root (update_node i (\<lambda>n. removeAttribute ''o-model'' (bind_input l x n)) (forest w))"
    for l x
    by (rule keep_step [OF shallow_model _ c]) (simp add: getAttribute_model assms(1))
  then show ?thesis using c
    by (simp add: bindModel_forest split: option.splits)
qed

lemma bindClick_keeps:
  assumes "name \<noteq> ''o-click''" and c: "clean name root (forest w)"
  shows "clean name root (forest (bindClick i w))"
proof -
  have "clean name root (update_node i (\<lambda>n. removeAttribute ''o-click'' (addEventListener l n)) (forest w))"
    for l
    by (rule keep_step [OF shallow_click _ c]) (simp add: getAttribute_click assms(1))
  then show ?thesis using c
    by (simp add: bindClick_forest split: option.splits)
qed

lemma pass_fold:
  assumes step: "\<And>i L w. well_formed w \<Longrightarrow> pending name root (forest w) (i # L) \<Longrightarrow>
                   well_formed (g i w) \<and> pending name root (forest (g i w)) L"
  shows "well_formed w \<Longrightarrow> pending name root (forest w) L \<Longrightarrow>
         well_formed (fold g L w) \<and> clean name root (forest (fold g L w))"
proof (induction L arbitrary: w)
  case Nil
  then show ?case by (simp add: pending_Nil)
next
  case (Cons i L)
  from step [OF Cons.prems] Cons.IH show ?case by simp
qed

lemma keep_fold:
  assumes "\<And>i w. clean name root (forest w) \<Longrightarrow> clean name root (forest (g i w))"
  shows "clean name root (forest w) \<Longrightarrow> clean name root (forest (fold g L w))"
  by (induction L arbitrary: w) (simp_all add: assms)

lemma if_pass_clean:
  "well_formed w \<Longrightarrow>
   well_formed (if_pass eng root w) \<and> clean ''o-if'' root (forest (if_pass eng root w))"
  unfolding if_pass_def
  by (rule pass_fold [where name = "''o-if''"]) (simp_all add: processIf_step pending_snapshot)

lemma model_pass_clean:
  "well_formed w \<Longrightarrow>
   well_formed (model_pass eng root w) \<and> clean ''o-model'' root (forest (model_pass eng root w))"
  unfolding model_pass_def
  by (rule pass_fold [where name = "''o-model''"]) (simp_all add: bindModel_step pending_snapshot)

lemma click_pass_clean:
  "well_formed w \<Longrightarrow>
   well_formed (click_pass root w) \<and> clean ''o-click'' root (forest (click_pass root w))"
  unfolding click_pass_def
  by (rule pass_fold [where name = "''o-click''"]) (simp_all add: bindClick_step pending_snapshot)

lemma model_pass_keeps:
  "name \<noteq> ''o-model'' \<Longrightarrow> clean name root (forest w) \<Longrightarrow>
   clean name root (forest (model_pass eng root w))"
  unfolding model_pass_def by (rule keep_fold) (rule bindModel_keeps)

lemma click_pass_keeps:
  "name \<noteq> ''o-click'' \<Longrightarrow> clean name root (forest w) \<Longrightarrow>
   clean name root (forest (click_pass root w))"
  unfolding click_pass_def by (rule keep_fold) (rule bindClick_keeps)

lemma nodeId_interpolate [simp]: "nodeId (fst (interpolate eng st n)) = nodeId n"
  by (cases n) (simp_all add: split_def Let_def)

lemma nodes_of_interpolate:
  "nodes_of (fst (interpolate eng st n)) = map (\<lambda>m. fst (interpolate eng st m)) (nodes_of n)"
proof (induction n)
  case (TextNode i s)
  show ?case by (simp add: split_def Let_def)
next
  case (OtherNode i)
  show ?case by simp
next
  case (Element i t as v ls cs)
  have "concat (map (\<lambda>c. nodes_of (fst (interpolate eng st c))) cs)
        = map (\<lambda>m. fst (interpolate eng st m)) (concat (map nodes_of cs))"
    using Element.IH by (simp add: map_concat comp_def cong: map_cong)
  then show ?case by (simp add: split_def Let_def comp_def)
qed

lemma ids_interpolate: "ids (fst (interpolate eng st n)) = ids n"
  by (simp add: ids_def nodes_of_interpolate comp_def)

lemma descendants_interpolate:
  "descendants (fst (interpolate eng st n))
   = map (\<lambda>m. fst (interpolate eng st m)) (descendants n)"
  using nodes_of_interpolate [of eng st n]
  by (simp add: nodes_of_alt [of n] nodes_of_alt [of "fst (interpolate eng st n)"])

lemma ids_map_node:
  assumes "\<And>m. ids (f m) = ids m"
  shows "ids (map_node i f n) = ids n"
proof (induction n)
  case (TextNode j s)
  show ?case using assms by simp
next
  case (OtherNode j)
  show ?case using assms by simp
next
  case (Element j t as v ls cs)
  have "ids (Element j t as v ls (map (map_node i f) cs)) = ids (Element j t as v ls cs)"
    using Element.IH
    by (simp add: ids_alt [of "Element j t as v ls cs"]
        ids_alt [of "Element j t as v ls (map (map_node i f) cs)"] comp_def cong: map_cong)
  then show ?case using assms by (auto simp: Let_def)
qed

lemma forest_ids_update_deep:
  "(\<And>m. ids (f m) = ids m) \<Longrightarrow> forest_ids (update_node i f F) = forest_ids F"
  by (simp add: forest_ids_alt update_node_def comp_def ids_map_node)

lemma map_node_absent: "i \<notin> set (ids n) \<Longrightarrow> map_node i f n = n"
proof (induction n)
  case (Element j t as v ls cs)
  from Element.prems have "j \<noteq> i" and "\<And>c. c \<in> set cs \<Longrightarrow> i \<notin> set (ids c)"
    by (auto simp: ids_alt [of "Element j t as v ls cs"])
  then have "map (map_node i f) cs = cs" using Element.IH by (simp add: map_idI)
  then show ?case using \<open>j \<noteq> i\<close> by (simp add: Let_def)
qed (simp_all add: ids_def)

lemma find_append:
  "find P (xs @ ys) = (case find P xs of None \<Rightarrow> find P ys | Some x \<Rightarrow> Some x)"
  by (induction xs) simp_all

lemma find_concat_map:
  assumes "\<And>c. c \<in> set cs \<Longrightarrow> find P (g' c) = map_option f (find Q (g c))"
  shows "find P (concat (map g' cs)) = map_option f (find Q (concat (map g cs)))"
  using assms by (induction cs) (simp_all add: find_append split: option.splits)

lemma find_nodes_self: "P m \<Longrightarrow> find P (nodes_of m) = Some m"
  by (simp add: nodes_of_alt [of m])

lemma find_map_node_root:
  assumes f: "\<And>m. nodeId (f m) = nodeId m"
  shows "distinct (ids n) \<Longrightarrow>
         find (\<lambda>m. nodeId m = i) (nodes_of (map_node i f n))
         = map_option f (find (\<lambda>m. nodeId m = i) (nodes_of n))"
proof (induction n)
  case (TextNode j s)
  show ?case using f by (simp add: find_nodes_self)
next
  case (OtherNode j)
  show ?case using f by (simp add: find_nodes_self)
next
  case (Element j t as v ls cs)
  let ?n = "Element j t as v ls cs"
  have dc: "distinct (concat (map ids cs))" and jn: "j \<notin> set (concat (map ids cs))"
    using Element.prems by (simp_all add: ids_alt [of ?n])
  show ?case
  proof (cases "j = i")
    case True
    have "\<And>c. c \<in> set cs \<Longrightarrow> i \<notin> set (ids c)" using jn True by auto
    then have "map (map_node i f) cs = cs" by (simp add: map_node_absent map_idI)
    then show ?thesis using True f by (simp add: Let_def find_nodes_self)
  next
    case False
    have "find (\<lambda>m. nodeId m = i) (concat (map (\<lambda>c. nodes_of (map_node i f c)) cs))
          = map_option f (find (\<lambda>m. nodeId m = i) (concat (map nodes_of cs)))"
    proof (rule find_concat_map)
      fix c assume c: "c \<in> set cs"
      then have "distinct (ids c)" using dc by (auto intro: distinct_concat_mem)
      from Element.IH [OF c this]
      show "find (\<lambda>m. nodeId m = i) (nodes_of (map_node i f c))
            = map_option f (find (\<lambda>m. nodeId m = i) (nodes_of c))" .
    qed
    then show ?thesis using False by (simp add: Let_def comp_def)
  qed
qed

lemma find_node_update_root:
  assumes f: "\<And>m. nodeId (f m) = nodeId m" and d: "distinct (forest_ids F)"
  shows "find_node i (update_node i f F) = map_option f (find_node i F)"
proof -
  have "find (\<lambda>m. nodeId m = i) (concat (map (\<lambda>c. nodes_of (map_node i f c)) F))
        = map_option f (find (\<lambda>m. nodeId m = i) (concat (map nodes_of F)))"
  proof (rule find_concat_map)
    fix c assume c: "c \<in> set F"
    then have "distinct (ids c)" using d by (auto simp: forest_ids_alt intro: distinct_concat_mem)
    then show "find (\<lambda>m. nodeId m = i) (nodes_of (map_node i f c))
               = map_option f (find (\<lambda>m. nodeId m = i) (nodes_of c))"
      by (rule find_map_node_root [OF f])
  qed
  then show ?thesis by (simp add: find_node_def forest_nodes_def update_node_def comp_def)
qed

lemma fill_Nil: "fill eng st [] = []"
  by (simp add: fill_def match_mustache_def strip_prefix_def)

lemma map_of_map_snd:
  "map_of (map (\<lambda>p. (fst p, g (snd p))) as) k = map_option g (map_of as k)"
  by (induction as) auto

lemma getAttribute_interpolate:
  "getAttribute (fst (interpolate eng st n)) name = map_option (fill eng st) (getAttribute n name)"
  by (cases n)
     (simp_all add: getAttribute_def split_def Let_def fst_interpolate_attrs map_of_map_snd)

lemma consumed_interpolate: "consumed name n \<Longrightarrow> consumed name (fst (interpolate eng st n))"
  by (auto simp: consumed_def getAttribute_interpolate fill_Nil)

lemma interpolate_root_forest:
  "nextId (interpolate_root eng root w) = nextId w \<and>
   forest (interpolate_root eng root w)
     = update_node root (\<lambda>n. fst (interpolate eng (state w) n)) (forest w)"
proof (cases "find_node root (forest w)")
  case None
  then have "root \<notin> set (forest_ids (forest w))"
    by (auto simp: find_node_def find_None_iff forest_ids_def)
  then have "\<And>T. T \<in> set (forest w) \<Longrightarrow> root \<notin> set (ids T)"
    by (auto simp: forest_ids_alt)
  then have "update_node root (\<lambda>n. fst (interpolate eng (state w) n)) (forest w) = forest w"
    by (simp add: update_node_def map_node_absent map_idI)
  with None show ?thesis by (simp add: interpolate_root_def)
next
  case (Some r)
  then show ?thesis by (simp add: interpolate_root_def write_console_def)
qed

lemma interpolate_root_clean:
  assumes w: "well_formed w"
  shows "well_formed (interpolate_root eng root w)
     \<and> (clean name root (forest w) \<longrightarrow> clean name root (forest (interpolate_root eng root w)))"
proof -
  let ?f = "\<lambda>n. fst (interpolate eng (state w) n)"
  note F = interpolate_root_forest [of eng root w]
  have d: "distinct (forest_ids (forest w))" using w by (simp add: well_formed_def)
  have "forest_ids (update_node root ?f (forest w)) = forest_ids (forest w)"
    by (rule forest_ids_update_deep) (rule ids_interpolate)
  then have a: "well_formed (interpolate_root eng root w)"
    using w F by (simp add: well_formed_def)
  have "under root (update_node root ?f (forest w)) = map ?f (under root (forest w))"
    using find_node_update_root [of ?f "forest w" root] d
    by (cases "find_node root (forest w)") (simp_all add: under_def descendants_interpolate)
  then have "clean name root (forest w) \<longrightarrow> clean name root (update_node root ?f (forest w))"
    by (simp add: clean_def list_all_iff consumed_interpolate)
  with a F show ?thesis by simp
qed

lemma upt_join: "k \<le> k1 \<Longrightarrow> k1 \<le> k2 \<Longrightarrow> [k..<k1] @ [k1..<k2] = [k..<(k2::nat)]"
  by (metis le_Suc_ex upt_add_eq_append)

lemma ids_Element: "ids (Element j t as v ls cs) = j # concat (map ids cs)"
  by (simp add: ids_alt [of "Element j t as v ls cs"])

lemma cloneNode_ids:
  "cloneNode k n = (c, k') \<Longrightarrow> ids c = [k..<k']"
  "cloneNodes k ns = (ms, k') \<Longrightarrow> concat (map ids ms) = [k..<k']"
proof (induction k n and k ns arbitrary: c k' and ms k' rule: cloneNode_cloneNodes.induct)
  case (1 k i s)
  then show ?case by (auto simp: ids_def)
next
  case (2 k i)
  then show ?case by (auto simp: ids_def)
next
  case (3 k i t as v ls cs)
  obtain cs' k1 where a: "cloneNodes (Suc k) cs = (cs', k1)" by (cases "cloneNodes (Suc k) cs")
  have "concat (map ids cs') = [Suc k..<k1]" using "3.IH" [OF a] .
  moreover have "Suc k \<le> k1" using cloneNode_next(2) [OF a] .
  ultimately show ?case using "3.prems" a
    by (auto simp: ids_alt [of "Element k t as v [] cs'"] upt_conv_Cons)
next
  case (4 k)
  then show ?case by simp
next
  case (5 k d ds)
  obtain c' k1 where a: "cloneNode k d = (c', k1)" by (cases "cloneNode k d")
  obtain cs' k2 where b: "cloneNodes k1 ds = (cs', k2)" by (cases "cloneNodes k1 ds")
  have "ids c' = [k..<k1]" using "5.IH"(1) [OF a] .
  moreover have "concat (map ids cs') = [k1..<k2]" using "5.IH"(2) [OF a [symmetric] refl b] .
  moreover have "k \<le> k1" "k1 \<le> k2" using cloneNode_next(1) [OF a] cloneNode_next(2) [OF b] by simp_all
  ultimately show ?case using "5.prems" a b by (auto simp: upt_join)
qed

lemma ids_expand_node: "ids (expand_node eng st nm item n) = ids n"
proof (induction n)
  case (Element j t as v ls cs)
  then show ?case
    by (simp add: ids_alt [of "Element j t as v ls cs"]
        ids_alt [of "Element j t (map (\<lambda>(k, x). (k, expand_attr eng st nm item x)) as) v ls
                       (map (expand_node eng st nm item) cs)"] comp_def cong: map_cong)
qed (simp_all add: ids_def)

lemma ids_expand_clone: "ids (expand_clone eng st nm item n) = ids n"
proof (cases n)
  case (Element j t as v ls cs)
  then show ?thesis
    by (simp add: ids_alt [of "Element j t as v ls cs"]
        ids_alt [of "Element j t as v ls (map (expand_node eng st nm item) cs)"]
        comp_def ids_expand_node)
qed simp_all

text \<open>\<open>appendChild\<close> under identities that are distinct adds the child at most once.\<close>

lemma append_list:
  assumes d: "distinct (concat (map ids cs))"
    and g: "\<And>x. x \<in> set cs \<Longrightarrow> p \<notin> set (ids x) \<Longrightarrow> g x = x"
    and q: "\<And>x. x \<in> set cs \<Longrightarrow>
              mset (ids (g x)) = mset (ids x) \<or> mset (ids (g x)) = mset (ids x) + M"
  shows "mset (concat (map (\<lambda>x. ids (g x)) cs)) = mset (concat (map ids cs))
       \<or> mset (concat (map (\<lambda>x. ids (g x)) cs)) = mset (concat (map ids cs)) + M"
  using assms
proof (induction cs)
  case Nil
  show ?case by simp
next
  case (Cons x xs)
  have dx: "distinct (concat (map ids xs))" using Cons.prems(1) by simp
  show ?case
  proof (cases "p \<in> set (ids x)")
    case True
    then have "\<And>y. y \<in> set xs \<Longrightarrow> p \<notin> set (ids y)" using Cons.prems(1) by auto
    then have "map (\<lambda>y. ids (g y)) xs = map ids xs" using Cons.prems(2) by simp
    then have eq: "mset (concat (map (\<lambda>y. ids (g y)) xs)) = mset (concat (map ids xs))"
      by (simp only:)
    have "mset (ids (g x)) = mset (ids x) \<or> mset (ids (g x)) = mset (ids x) + M"
      using Cons.prems(3) [of x] by simp
    then show ?thesis by (elim disjE) (simp_all add: eq)
  next
    case False
    then have "g x = x" using Cons.prems(2) by simp
    moreover have "mset (concat (map (\<lambda>x. ids (g x)) xs)) = mset (concat (map ids xs))
       \<or> mset (concat (map (\<lambda>x. ids (g x)) xs)) = mset (concat (map ids xs)) + M"
      using Cons.IH [OF dx] Cons.prems(2,3) by simp
    ultimately show ?thesis by auto
  qed
qed

lemma append_tree:
  "distinct (ids n) \<Longrightarrow>
   mset (ids (map_node p (appendChild c) n)) = mset (ids n)
   \<or> mset (ids (map_node p (appendChild c) n)) = mset (ids n) + mset (ids c)"
proof (induction n)
  case (TextNode j s)
  show ?case by simp
next
  case (OtherNode j)
  show ?case by simp
next
  case (Element j t as v ls cs)
  let ?n = "Element j t as v ls cs"
  have dc: "distinct (concat (map ids cs))" and jn: "j \<notin> set (concat (map ids cs))"
    using Element.prems by (simp_all add: ids_Element)
  show ?case
  proof (cases "j = p")
    case True
    have "\<And>x. x \<in> set cs \<Longrightarrow> p \<notin> set (ids x)" using jn True by auto
    then have "map (map_node p (appendChild c)) cs = cs" by (simp add: map_node_absent map_idI)
    then show ?thesis using True
      by (simp add: Let_def ids_Element)
  next
    case False
    have "mset (concat (map (\<lambda>x. ids (map_node p (appendChild c) x)) cs)) = mset (concat (map ids cs))
       \<or> mset (concat (map (\<lambda>x. ids (map_node p (appendChild c) x)) cs))
           = mset (concat (map ids cs)) + mset (ids c)"
    proof (rule append_list [OF dc])
      fix x assume "x \<in> set cs" "p \<notin> set (ids x)"
      then show "map_node p (appendChild c) x = x" by (simp add: map_node_absent)
    next
      fix x assume x: "x \<in> set cs"
      then have "distinct (ids x)" using dc by (auto intro: distinct_concat_mem)
      from Element.IH [OF x this]
      show "mset (ids (map_node p (appendChild c) x)) = mset (ids x)
          \<or> mset (ids (map_node p (appendChild c) x)) = mset (ids x) + mset (ids c)" .
    qed
    then show ?thesis using False
      by (auto simp: Let_def ids_Element comp_def)
  qed
qed

lemma append_forest:
  assumes d: "distinct (forest_ids F)"
  shows "mset (forest_ids (update_node p (appendChild c) F)) = mset (forest_ids F)
       \<or> mset (forest_ids (update_node p (appendChild c) F)) = mset (forest_ids F) + mset (ids c)"
proof -
  have dc: "distinct (concat (map ids F))" using d by (simp add: forest_ids_alt)
  have "mset (concat (map (\<lambda>x. ids (map_node p (appendChild c) x)) F)) = mset (concat (map ids F))
       \<or> mset (concat (map (\<lambda>x. ids (map_node p (appendChild c) x)) F))
           = mset (concat (map ids F)) + mset (ids c)"
  proof (rule append_list [OF dc])
    fix x assume "x \<in> set F" "p \<notin> set (ids x)"
    then show "map_node p (appendChild c) x = x" by (simp add: map_node_absent)
  next
    fix x assume x: "x \<in> set F"
    then have "distinct (ids x)" using dc by (auto intro: distinct_concat_mem)
    then show "mset (ids (map_node p (appendChild c) x)) = mset (ids x)
          \<or> mset (ids (map_node p (appendChild c) x)) = mset (ids x) + mset (ids c)"
      by (rule append_tree)
  qed
  then show ?thesis by (simp add: forest_ids_alt update_node_def comp_def)
qed

lemma wf_forest_append:
  assumes w: "wf_forest k F" and c: "ids c = [k..<k']" and le: "k \<le> k'"
  shows "wf_forest k' (update_node p (appendChild c) F)"
proof -
  let ?F = "update_node p (appendChild c) F"
  have d: "distinct (forest_ids F)" and b: "\<And>i. i \<in> set (forest_ids F) \<Longrightarrow> i < k"
    using w by (simp_all add: wf_forest_def list_all_iff)
  have "\<And>i. i \<in> set (forest_ids F) \<Longrightarrow> i \<notin> set [k..<k']" using b by fastforce
  then have dd: "distinct (forest_ids F @ [k..<k'])" using d by auto
  have b': "\<And>i. i \<in> set (forest_ids F) \<Longrightarrow> i < k'" using b le by fastforce
  have bb: "\<And>i. i \<in> set (forest_ids F @ [k..<k']) \<Longrightarrow> i < k'" using b' by auto
  from append_forest [OF d, of p c] show ?thesis
  proof
    assume e: "mset (forest_ids ?F) = mset (forest_ids F)"
    then have "distinct (forest_ids ?F)" using d mset_eq_imp_distinct_iff by blast
    moreover have "set (forest_ids ?F) = set (forest_ids F)" using e by (rule mset_eq_setD)
    ultimately show ?thesis using b' by (simp add: wf_forest_def list_all_iff)
  next
    assume "mset (forest_ids ?F) = mset (forest_ids F) + mset (ids c)"
    then have e: "mset (forest_ids ?F) = mset (forest_ids F @ [k..<k'])" by (simp add: c)
    then have "distinct (forest_ids ?F)" using dd mset_eq_imp_distinct_iff by blast
    moreover have "set (forest_ids ?F) = set (forest_ids F @ [k..<k'])" using e by (rule mset_eq_setD)
    ultimately show ?thesis using b' by (auto simp: wf_forest_def list_all_iff)
  qed
qed

lemma processFor_head_forest:
  "processFor_head eng i w = Expansion itemName template parent items w2 \<Longrightarrow>
   forest w2 = remove i (forest w) \<and> nextId w2 = nextId w"
  by (auto simp: processFor_head_def Let_def write_console_def
      split: option.splits if_splits prod.splits jsval.splits)

lemma later_passes_wf:
  assumes "well_formed w"
  shows "well_formed
           (subscribe root
              (interpolate_root eng root
                 (click_pass root (model_pass eng root (if_pass eng root w)))))"
proof -
  let ?a = "if_pass eng root w"
  let ?b = "model_pass eng root ?a"
  let ?c = "click_pass root ?b"
  let ?d = "interpolate_root eng root ?c"
  have "well_formed ?a" using if_pass_clean [OF assms] by simp
  then have "well_formed ?b" using model_pass_clean by simp
  then have "well_formed ?c" using click_pass_clean by simp
  then have "well_formed ?d" using interpolate_root_clean by simp
  then show ?thesis by (simp add: well_formed_def subscribe_def)
qed

lemma first_pass_wf:
  "processDirectives k eng root w = Returned w' \<Longrightarrow> well_formed w \<Longrightarrow> well_formed w'"
  "for_pass k eng is w = Returned w' \<Longrightarrow> well_formed w \<Longrightarrow> well_formed w'"
  "processFor k eng i w = Returned w' \<Longrightarrow> well_formed w \<Longrightarrow> well_formed w'"
  "for_items k eng itemName template parent items w = Returned w' \<Longrightarrow> well_formed w \<Longrightarrow>
   well_formed w'"
proof (induction k eng root w and k eng "is" w and k eng i w
    and k eng itemName template parent items w
    arbitrary: w' and w' and w' and w'
    rule: processDirectives_for_pass_processFor_for_items.induct)
  case (1 eng root w)
  then show ?case by simp
next
  case (2 k eng root w)
  from "2.prems"(1) obtain w1 where
    a: "for_pass k eng (querySelectorAll ''o-for'' root (forest w)) w = Returned w1" and
    b: "w' = subscribe root
              (interpolate_root eng root
                 (click_pass root (model_pass eng root (if_pass eng root w1))))"
    by (auto split: outcome.splits)
  have "well_formed w1" using "2.IH" [OF a "2.prems"(2)] .
  then show ?case unfolding b by (rule later_passes_wf)
next
  case (3 k eng w)
  then show ?case by simp
next
  case (4 k eng i "is" w)
  from "4.prems"(1) obtain w1 where
    a: "processFor k eng i w = Returned w1" and b: "for_pass k eng is w1 = Returned w'"
    by (auto split: outcome.splits)
  show ?case using "4.IH"(2) [OF a b "4.IH"(1) [OF a "4.prems"(2)]] .
next
  case (5 k eng i w)
  show ?case
  proof (cases "processFor_head eng i w")
    case NoExpansion
    with "5.prems" show ?thesis by simp
  next
    case (NotIterable e w2)
    with "5.prems" show ?thesis by simp
  next
    case (Expansion itemName template parent items w2)
    with "5.prems"(1) have r: "for_items k eng itemName template parent items w2 = Returned w'"
      by simp
    have "well_formed w2"
      using processFor_head_forest [OF Expansion] "5.prems"(2) wf_forest_remove
      by (simp add: well_formed_alt)
    then show ?thesis using "5.IH" [OF Expansion r] by simp
  qed
next
  case (6 k eng itemName template parent w)
  then show ?case by simp
next
  case (7 k eng itemName template parent item items w)
  obtain c k' where c: "cloneNode (nextId w) template = (c, k')"
    by (cases "cloneNode (nextId w) template")
  let ?clone = "expand_clone eng (state w) itemName item c"
  let ?w1 = "w\<lparr>nextId := k'\<rparr>"
  from "7.prems"(1) c obtain p w2 where
    p: "parent = Some p" and
    d: "processDirectives k eng (nodeId ?clone)
          (?w1\<lparr>forest := update_node p (appendChild ?clone) (forest ?w1)\<rparr>) = Returned w2" and
    e: "for_items k eng itemName template parent items w2 = Returned w'"
    by (auto simp: Let_def split: option.splits outcome.splits)
  have "ids ?clone = [nextId w..<k']" using cloneNode_ids(1) [OF c] by (simp add: ids_expand_clone)
  moreover have "nextId w \<le> k'" using cloneNode_next(1) [OF c] by simp
  ultimately have "wf_forest k' (update_node p (appendChild ?clone) (forest w))"
    using "7.prems"(2) wf_forest_append by (simp add: well_formed_alt)
  then have "well_formed (?w1\<lparr>forest := update_node p (appendChild ?clone) (forest ?w1)\<rparr>)"
    by (simp add: well_formed_alt)
  then have "well_formed w2" using "7.IH"(1) [OF c [symmetric] refl refl refl p d] by simp
  then show ?case using "7.IH"(2) [OF c [symmetric] refl refl refl p d e] by simp
qed

lemma first_pass_clean:
  assumes r: "processDirectives k eng root w = Returned w'" and w: "well_formed w"
  shows "well_formed w' \<and> clean ''o-if'' root (forest w') \<and> clean ''o-model'' root (forest w')
     \<and> clean ''o-click'' root (forest w')"
proof (cases k)
  case 0
  with r show ?thesis by simp
next
  case (Suc k0)
  with r obtain w1 where
    a: "for_pass k0 eng (querySelectorAll ''o-for'' root (forest w)) w = Returned w1" and
    b: "w' = subscribe root
              (interpolate_root eng root
                 (click_pass root (model_pass eng root (if_pass eng root w1))))"
    by (auto split: outcome.splits)
  let ?a = "if_pass eng root w1"
  let ?b = "model_pass eng root ?a"
  let ?c = "click_pass root ?b"
  let ?d = "interpolate_root eng root ?c"
  have w1: "well_formed w1" using first_pass_wf(2) [OF a w] .
  have a1: "well_formed ?a" "clean ''o-if'' root (forest ?a)"
    using if_pass_clean [OF w1] by simp_all
  have b1: "well_formed ?b" "clean ''o-model'' root (forest ?b)"
    using model_pass_clean [OF a1(1)] by simp_all
  have b2: "clean ''o-if'' root (forest ?b)"
    using model_pass_keeps [OF _ a1(2)] by simp
  have c1: "well_formed ?c" "clean ''o-click'' root (forest ?c)"
    using click_pass_clean [OF b1(1)] by simp_all
  have c2: "clean ''o-if'' root (forest ?c)" "clean ''o-model'' root (forest ?c)"
    using click_pass_keeps [OF _ b2] click_pass_keeps [OF _ b1(2)] by simp_all
  have "well_formed ?d" "clean ''o-if'' root (forest ?d)" "clean ''o-model'' root (forest ?d)"
    "clean ''o-click'' root (forest ?d)"
    using interpolate_root_clean [OF c1(1)] c1(2) c2 by simp_all
  then show ?thesis by (simp add: b subscribe_def well_formed_def)
qed

lemma snapshot_consumed:
  assumes w: "well_formed w" and c: "clean name root (forest w)"
    and i: "i \<in> set (querySelectorAll name root (forest w))"
  shows "\<exists>n. find_node i (forest w) = Some n \<and> consumed name n"
proof -
  from i obtain n where n: "n \<in> set (under root (forest w))" "nodeId n = i"
    by (cases "find_node root (forest w)") (auto simp: querySelectorAll_def under_def)
  have "consumed name n" using c n(1) by (simp add: clean_def list_all_iff)
  moreover have "find_node (nodeId n) (forest w) = Some n"
    using w n(1) under_subset find_node_unique by (metis subsetD well_formed_def)
  ultimately show ?thesis using n(2) by auto
qed

lemma processIf_consumed:
  "find_node i (forest w) = Some n \<Longrightarrow> consumed ''o-if'' n \<Longrightarrow> processIf eng i w = w"
  by (auto simp: processIf_def consumed_def)

lemma bindModel_consumed:
  "find_node i (forest w) = Some n \<Longrightarrow> consumed ''o-model'' n \<Longrightarrow> bindModel eng i w = w"
  by (auto simp: bindModel_def consumed_def)

lemma bindClick_consumed:
  "find_node i (forest w) = Some n \<Longrightarrow> consumed ''o-click'' n \<Longrightarrow> bindClick i w = w"
  by (auto simp: bindClick_def consumed_def)

lemma fold_fixed: "(\<And>i. i \<in> set L \<Longrightarrow> f i w = w) \<Longrightarrow> fold f L w = w"
  by (induction L) simp_all

text \<open>
  C5, as the code has it. When first-pass processing of a well-formed page returns, no node
  below the root carries an \<open>o-if\<close>, \<open>o-model\<close> or \<open>o-click\<close> attribute with a non-empty
  value: every such directive found by the passes was consumed (its element removed, or the
  attribute stripped). Running the conditional, the binding or the click pass again over the
  root changes nothing. Nothing of the kind holds for \<open>o-for\<close>, which stays on every clone,
  nor for a directive whose value is empty, which no handler strips.
\<close>

theorem directives_consumed:
  assumes "processDirectives k eng root w = Returned w'" and "well_formed w"
  shows "clean ''o-if'' root (forest w') \<and> clean ''o-model'' root (forest w')
     \<and> clean ''o-click'' root (forest w')
     \<and> if_pass eng root w' = w' \<and> model_pass eng root w' = w' \<and> click_pass root w' = w'"
proof -
  from first_pass_clean [OF assms] have
    w': "well_formed w'" and a: "clean ''o-if'' root (forest w')"
    and b: "clean ''o-model'' root (forest w')" and c: "clean ''o-click'' root (forest w')"
    by simp_all
  have "if_pass eng root w' = w'"
    unfolding if_pass_def
    using snapshot_consumed [OF w' a] processIf_consumed by (intro fold_fixed) blast
  moreover have "model_pass eng root w' = w'"
    unfolding model_pass_def
    using snapshot_consumed [OF w' b] bindModel_consumed by (intro fold_fixed) blast
  moreover have "click_pass root w' = w'"
    unfolding click_pass_def
    using snapshot_consumed [OF w' c] bindClick_consumed by (intro fold_fixed) blast
  ultimately show ?thesis using a b c by simp
qed

text \<open>A page with every directive, before and after \<open>processDirectives\<close>.\<close>

definition full_page :: world where
  "full_page =
     \<lparr>state = [(''data'', JObj [(''xs'', JArr [JStr ''a'', JStr ''b'']), (''show'', JBool True),
                               (''hide'', JBool False), (''name'', JStr ''Olly'')]),
               (''route'', JStr ''home''), (''theme'', JStr ''light'')],
      handlers = [],
      forest =
        [Element 0 ''DIV'' [(''id'', ''app'')] [] []
           [Element 1 ''P'' [(''o-if'', ''show'')] [] [] [TextNode 2 ''Hello {{ name }}!''],
            Element 3 ''P'' [(''o-if'', ''hide'')] [] [] [TextNode 4 ''hidden''],
            Element 5 ''UL'' [] [] []
              [Element 6 ''LI'' [(''o-for'', ''x in xs''), (''o-click'', ''state.pick = 1'')] [] []
                 [TextNode 7 ''{{ x }}'']],
            Element 8 ''INPUT'' [(''o-model'', ''name'')] [] [] [],
            Element 9 ''BUTTON'' [(''o-click'', ''state.count = 5''), (''o-if'', [])] [] []
              [TextNode 10 ''count'']]],
      nextId = 11, console = [], invocations = []\<rparr>"

definition full_ready :: world where
  "full_ready =
     \<lparr>state = [(''data'', JObj [(''xs'', JArr [JStr ''a'', JStr ''b'']), (''show'', JBool True),
                               (''hide'', JBool False), (''name'', JStr ''Olly'')]),
               (''route'', JStr ''home''), (''theme'', JStr ''light'')],
      handlers = [11, 13, 0],
      forest =
        [Element 0 ''DIV'' [(''id'', ''app'')] [] []
           [Element 1 ''P'' [] [] [] [TextNode 2 ''Hello Olly!''],
            Element 5 ''UL'' [] [] []
              [Element 11 ''LI'' [(''o-for'', ''x in xs'')] [] [ClickListener ''state.pick = 1'']
                 [TextNode 12 ''a''],
               Element 13 ''LI'' [(''o-for'', ''x in xs'')] [] [ClickListener ''state.pick = 1'']
                 [TextNode 14 ''b'']],
            Element 8 ''INPUT'' [] ''Olly'' [InputListener ''name''] [],
            Element 9 ''BUTTON'' [(''o-if'', [])] [] [ClickListener ''state.count = 5'']
              [TextNode 10 ''count'']],
         Element 6 ''LI'' [(''o-for'', ''x in xs''), (''o-click'', ''state.pick = 1'')] [] []
           [TextNode 7 ''{{ x }}''],
         Element 3 ''P'' [(''o-if'', ''hide'')] [] [] [TextNode 4 ''hidden'']],
      nextId = 15, console = [], invocations = []\<rparr>"

theorem directives_consumed_witness:
  "well_formed full_page
   \<and> processDirectives (Suc 1) path_engine 0 full_page = Returned full_ready
   \<and> clean ''o-if'' 0 (forest full_ready) \<and> clean ''o-model'' 0 (forest full_ready)
   \<and> clean ''o-click'' 0 (forest full_ready)
   \<and> if_pass path_engine 0 full_ready = full_ready
   \<and> model_pass path_engine 0 full_ready = full_ready
   \<and> click_pass 0 full_ready = full_ready"
proof -
  have a: "well_formed full_page" by code_simp
  have b: "processDirectives (Suc 1) path_engine 0 full_page = Returned full_ready"
    by code_simp
  show ?thesis using a b directives_consumed [OF b a] by simp
qed

text \<open>
  The claim as the specification words it fails on the list page: after the first pass both
  clones still carry \<open>o-for\<close>, and processing the same root once more expands each of them
  again.
\<close>

theorem directive_left_counterexample:
  "processDirectives (Suc 1) path_engine 0 list_page = Returned list_ready
   \<and> querySelectorAll ''o-for'' 0 (forest list_ready) = [4, 6]
   \<and> map_option (\<lambda>n. getAttribute n ''o-for'') (find_node 4 (forest list_ready))
       = Some (Some ''x in xs'')
   \<and> (case processDirectives (Suc 1) path_engine 0 list_ready of
         Returned w \<Rightarrow> querySelectorAll ''o-for'' 0 (forest w) = [8, 10, 12, 14]
       | Threw e w \<Rightarrow> False
       | OutOfFuel \<Rightarrow> False)"
  by (intro conjI) code_simp+

end
